theory Spec2Isabelle
  imports Complex_Main "HOL-Library.Multiset"
begin

section \<open>Prompt Navigator (unifiedContentScript.js, PromptNavigator)\<close>

text \<open>
  Pixel quantities are JavaScript numbers; they are modelled as exact reals (rounding of
  doubles and NaN are not represented for geometry). A DOM element is known to the navigator
  by its identity (a natural number standing for the object reference) and by what
  \<^verbatim>\<open>getBoundingClientRect()\<close> currently returns for it.
\<close>

record elem =
  node :: nat
  rect_top :: real
  rect_height :: real

text \<open>
  One entry of the \<^verbatim>\<open>parentElement\<close> chain walked by \<^verbatim>\<open>getScrollContext\<close>:
  the computed \<^verbatim>\<open>overflowY\<close>, the scroll geometry, the bounding rectangle, and
  whether the element is \<^verbatim>\<open>document.body\<close> or \<^verbatim>\<open>document.documentElement\<close>.
\<close>

record ancestor =
  overflowY :: string
  anc_scrollHeight :: real
  anc_clientHeight :: real
  anc_scrollTop :: real
  anc_rect_height :: real
  anc_rect_top :: real
  is_body_or_root :: bool

text \<open>
  What the navigator reads from the browser during one call: the window's scroll position and
  inner height, \<^verbatim>\<open>document.documentElement.scrollHeight\<close>, the ancestor chain of
  \<^verbatim>\<open>prompts[0]\<close> (nearest first) and \<^verbatim>\<open>Date.now()\<close>.
\<close>

record page =
  scrollY :: real
  innerHeight :: real
  doc_scrollHeight :: real
  ancestors :: "ancestor list"
  now :: int

record scroll_context =
  container :: "ancestor option"
  scrollTop :: real
  viewHeight :: real
  containerTop :: real
  isWindow :: bool

datatype anchor_kind = Top | Bottom | ChatBottom

record anchor =
  element :: "nat option"
  kind :: anchor_kind
  y :: real
  promptIndex :: nat

record scroll_cmd =
  scroll_top :: real
  behavior :: string

record nav_state =
  prompts :: "elem list"
  lastAnchor :: "(nat option \<times> anchor_kind) option"
  lastJumpTime :: int

datatype jump_result = Success nat nat | Failure string

text \<open>The \<^verbatim>\<open>while (current)\<close> loop of \<^verbatim>\<open>getScrollContext\<close> over the ancestor chain.\<close>

fun findScrollContainer :: "ancestor list \<Rightarrow> ancestor option" where
  "findScrollContainer [] = None"
| "findScrollContainer (current # rest) =
     (if (overflowY current = ''auto'' \<or> overflowY current = ''scroll'')
         \<and> anc_scrollHeight current > anc_clientHeight current
      then Some current
      else if is_body_or_root current then None
      else findScrollContainer rest)"

definition windowContext :: "page \<Rightarrow> scroll_context" where
  "windowContext pg =
     \<lparr>container = None, scrollTop = scrollY pg, viewHeight = innerHeight pg,
      containerTop = 0, isWindow = True\<rparr>"

definition getScrollContext :: "page \<Rightarrow> elem list \<Rightarrow> scroll_context" where
  "getScrollContext pg ps =
     (case (if ps \<noteq> [] then findScrollContainer (ancestors pg) else None) of
        None \<Rightarrow> windowContext pg
      | Some c \<Rightarrow>
          if is_body_or_root c then windowContext pg
          else \<lparr>container = Some c, scrollTop = anc_scrollTop c,
                viewHeight = anc_rect_height c, containerTop = anc_rect_top c,
                isWindow = False\<rparr>)"

text \<open>
  \<^verbatim>\<open>context.isWindow ? document.documentElement.scrollHeight : context.container.scrollHeight\<close>.
  A context that is not the window always carries its container; the remaining case
  cannot be produced by \<^const>\<open>getScrollContext\<close>.
\<close>

definition scrollHeightOf :: "page \<Rightarrow> scroll_context \<Rightarrow> real" where
  "scrollHeightOf pg ctx =
     (if isWindow ctx then doc_scrollHeight pg
      else (case container ctx of Some c \<Rightarrow> anc_scrollHeight c | None \<Rightarrow> doc_scrollHeight pg))"

text \<open>The body of the \<^verbatim>\<open>prompts.forEach\<close> callback of \<^verbatim>\<open>buildAnchors\<close>.\<close>

definition turnAnchors :: "scroll_context \<Rightarrow> nat \<times> elem \<Rightarrow> anchor list" where
  "turnAnchors ctx ie =
     (let index = fst ie; el = snd ie;
          largeThreshold = viewHeight ctx * 0.8;
          topY = scrollTop ctx + (rect_top el - containerTop ctx);
          height = rect_height el
      in \<lparr>element = Some (node el), kind = Top, y = topY, promptIndex = index\<rparr>
         # (if height > largeThreshold
            then [\<lparr>element = Some (node el), kind = Bottom, y = topY + height,
                   promptIndex = index\<rparr>]
            else []))"

definition endAnchor :: "page \<Rightarrow> scroll_context \<Rightarrow> elem list \<Rightarrow> anchor" where
  "endAnchor pg ctx ps =
     \<lparr>element = None, kind = ChatBottom, y = scrollHeightOf pg ctx, promptIndex = length ps\<rparr>"

text \<open>
  \<^verbatim>\<open>anchors.sort((a, b) => a.y - b.y)\<close> is a stable sort by \<^verbatim>\<open>y\<close>;
  \<^const>\<open>sort_key\<close> is the stable insertion sort.
\<close>

definition buildAnchors :: "page \<Rightarrow> scroll_context \<Rightarrow> elem list \<Rightarrow> anchor list" where
  "buildAnchors pg ctx ps =
     sort_key y (concat (map (turnAnchors ctx) (enumerate 0 ps)) @ [endAnchor pg ctx ps])"

definition getTargetScroll :: "page \<Rightarrow> scroll_context \<Rightarrow> anchor \<Rightarrow> real" where
  "getTargetScroll pg ctx a =
     (let scrollOffset = viewHeight ctx * 0.15 in
      if kind a = ChatBottom then scrollHeightOf pg ctx - viewHeight ctx
      else if kind a = Top then y a - scrollOffset
      else y a - viewHeight ctx + viewHeight ctx * 0.2)"

text \<open>\<^verbatim>\<open>Array.prototype.findIndex\<close>: the first index whose element satisfies the predicate, or -1.\<close>

fun findIndex :: "('a \<Rightarrow> bool) \<Rightarrow> 'a list \<Rightarrow> int" where
  "findIndex P [] = -1"
| "findIndex P (x # xs) =
     (if P x then 0 else (let r = findIndex P xs in if r = -1 then -1 else r + 1))"

definition findTargetAnchor ::
  "anchor list \<Rightarrow> page \<Rightarrow> scroll_context \<Rightarrow> string \<Rightarrow> (nat option \<times> anchor_kind) option \<Rightarrow> anchor option"
where
  "findTargetAnchor anchors pg ctx direction la =
     (let currentScroll = scrollTop ctx;
          currentIndex =
            (case la of
               None \<Rightarrow> -1
             | Some l \<Rightarrow> findIndex (\<lambda>a. element a = fst l \<and> kind a = snd l) anchors)
      in if currentIndex = -1 then
           (let tolerance = 10 in
            if direction = ''previous''
            then find (\<lambda>a. getTargetScroll pg ctx a < currentScroll - tolerance) (rev anchors)
            else find (\<lambda>a. getTargetScroll pg ctx a > currentScroll + tolerance) anchors)
         else if direction = ''next'' then
           (if currentIndex \<ge> int (length anchors) - 1 then None
            else Some (anchors ! nat (currentIndex + 1)))
         else
           (if currentIndex \<le> 0 then None
            else Some (anchors ! nat (currentIndex - 1))))"

definition scrollToAnchor ::
  "anchor \<Rightarrow> page \<Rightarrow> scroll_context \<Rightarrow> int \<Rightarrow> scroll_cmd \<times> int"
where
  "scrollToAnchor a pg ctx lastJump =
     (let isRapid = (now pg - lastJump < 300);
          behavior = (if isRapid then ''auto'' else ''smooth'');
          targetScrollTop =
            (if kind a = ChatBottom then scrollHeightOf pg ctx - viewHeight ctx
             else if kind a = Top then y a - viewHeight ctx * 0.15
             else y a - viewHeight ctx + viewHeight ctx * 0.2);
          maxScroll = scrollHeightOf pg ctx - viewHeight ctx;
          clamped = max 0 (min targetScrollTop maxScroll)
      in (\<lparr>scroll_top = clamped, behavior = behavior\<rparr>, now pg))"

definition jump :: "page \<Rightarrow> string \<Rightarrow> nav_state \<Rightarrow> jump_result \<times> nav_state \<times> scroll_cmd option"
where
  "jump pg direction s =
     (if prompts s = [] then (Failure ''no_prompts'', s, None)
      else
        (let ctx = getScrollContext pg (prompts s);
             anchors = buildAnchors pg ctx (prompts s)
         in if anchors = [] then (Failure ''no_anchors'', s, None)
            else
              (case findTargetAnchor anchors pg ctx direction (lastAnchor s) of
                 None \<Rightarrow> (Failure ''no_target'', s, None)
               | Some target \<Rightarrow>
                   (let (cmd, t) = scrollToAnchor target pg ctx (lastJumpTime s)
                    in (Success (promptIndex target) (length (prompts s)),
                        s\<lparr>lastAnchor := Some (element target, kind target), lastJumpTime := t\<rparr>,
                        Some cmd)))))"

subsection \<open>The anchors the specification describes\<close>

text \<open>
  The specification's description of what each turn contributes: a top anchor at the turn's
  start offset, a bottom anchor at its end offset, and the test for a turn taller than 80% of
  the viewport. A recorded anchor is identified by element identity and kind.
\<close>

definition topAnchorOf :: "scroll_context \<Rightarrow> nat \<times> elem \<Rightarrow> anchor" where
  "topAnchorOf ctx ie =
     \<lparr>element = Some (node (snd ie)), kind = Top,
      y = scrollTop ctx + (rect_top (snd ie) - containerTop ctx), promptIndex = fst ie\<rparr>"

definition bottomAnchorOf :: "scroll_context \<Rightarrow> nat \<times> elem \<Rightarrow> anchor" where
  "bottomAnchorOf ctx ie =
     \<lparr>element = Some (node (snd ie)), kind = Bottom,
      y = scrollTop ctx + (rect_top (snd ie) - containerTop ctx) + rect_height (snd ie),
      promptIndex = fst ie\<rparr>"

definition isLarge :: "scroll_context \<Rightarrow> nat \<times> elem \<Rightarrow> bool" where
  "isLarge ctx ie \<longleftrightarrow> rect_height (snd ie) > viewHeight ctx * 0.8"

definition anchorKey :: "anchor \<Rightarrow> nat option \<times> anchor_kind" where
  "anchorKey a = (element a, kind a)"

subsection \<open>Concrete pages used in evaluations\<close>

definition navState :: "elem list \<Rightarrow> (nat option \<times> anchor_kind) option \<Rightarrow> nav_state" where
  "navState ps la = \<lparr>prompts = ps, lastAnchor = la, lastJumpTime = 0\<rparr>"

definition demoPage :: page where
  "demoPage = \<lparr>scrollY = 0, innerHeight = 800, doc_scrollHeight = 3000, ancestors = [], now = 1000\<rparr>"

definition bottomPage :: page where
  "bottomPage = \<lparr>scrollY = 2200, innerHeight = 800, doc_scrollHeight = 3000, ancestors = [], now = 1000\<rparr>"

definition clippedPage :: page where
  "clippedPage = \<lparr>scrollY = 0, innerHeight = 900, doc_scrollHeight = 900, ancestors = [], now = 1000\<rparr>"

definition clippedPrompts :: "elem list" where
  "clippedPrompts = [\<lparr>node = 0, rect_top = 2000, rect_height = 100\<rparr>]"

definition demoPrompts :: "elem list" where
  "demoPrompts = [\<lparr>node = 0, rect_top = 56, rect_height = 100\<rparr>,
                  \<lparr>node = 1, rect_top = 400, rect_height = 900\<rparr>]"

section \<open>JavaScript strings\<close>

text \<open>
  A JavaScript string is a sequence of UTF-16 code units; each code unit is modelled as a
  natural number (below 65536 for a real string; no arithmetic here depends on the bound).
  \<^const>\<open>length\<close> of the list is the string's \<^verbatim>\<open>length\<close>. Isabelle string literals are
  written through the embedding below: \<^verbatim>\<open>js ''abc''\<close> is the code-unit list of an
  ASCII literal.
\<close>

type_synonym jschar = nat

type_synonym jsstring = "nat list"

definition js :: "string \<Rightarrow> jsstring" where
  "js s = map of_char s"

text \<open>
  The class \<^verbatim>\<open>\s\<close> of JavaScript regular expressions, which is also what
  \<^verbatim>\<open>String.prototype.trim\<close> strips: ECMAScript WhiteSpace and LineTerminator.
\<close>

definition isWhiteSpace :: "jschar \<Rightarrow> bool" where
  "isWhiteSpace c \<longleftrightarrow>
     (0x09 \<le> c \<and> c \<le> 0x0D) \<or> c = 0x20 \<or> c = 0xA0 \<or> c = 0x1680
     \<or> (0x2000 \<le> c \<and> c \<le> 0x200A) \<or> c = 0x2028 \<or> c = 0x2029 \<or> c = 0x202F
     \<or> c = 0x205F \<or> c = 0x3000 \<or> c = 0xFEFF"

section \<open>Token estimator (tokenEstimator.js)\<close>

text \<open>
  Numbers computed by the estimator are JavaScript doubles; they are modelled as exact reals and
  integers. The products \<^verbatim>\<open>words * 1.33\<close> have at most two decimals and the blend
  \<^verbatim>\<open>byWord * 0.4 + byCharacter * 0.6\<close> is a multiple of 0.2, so for counts a page can
  hold the rounding of doubles changes neither \<^verbatim>\<open>Math.ceil\<close> nor
  \<^verbatim>\<open>Math.round\<close>. \<^verbatim>\<open>Math.round\<close> rounds halves upwards, as \<^const>\<open>round\<close> does.
\<close>

text \<open>\<^verbatim>\<open>text.replace(/\s+/g, ' ')\<close>: every maximal run of whitespace becomes one space.\<close>

function collapseWhitespace :: "jsstring \<Rightarrow> jsstring" where
  "collapseWhitespace [] = []"
| "collapseWhitespace (c # cs) =
     (if isWhiteSpace c then 0x20 # collapseWhitespace (dropWhile isWhiteSpace cs)
      else c # collapseWhitespace cs)"
  by pat_completeness auto
termination
  by (relation "measure length") (auto simp: le_imp_less_Suc length_dropWhile_le)

definition trim :: "jsstring \<Rightarrow> jsstring" where
  "trim s = rev (dropWhile isWhiteSpace (rev (dropWhile isWhiteSpace s)))"

text \<open>\<^verbatim>\<open>cleaned.replace(/\s+/g, '')\<close>.\<close>

definition removeWhitespace :: "jsstring \<Rightarrow> jsstring" where
  "removeWhitespace s = filter (\<lambda>c. \<not> isWhiteSpace c) s"

text \<open>
  \<^verbatim>\<open>text.split(/\s+/u)\<close>: the fields between maximal runs of whitespace, with an empty
  first or last field when the text starts or ends with whitespace.
\<close>

function splitWhitespace :: "jsstring \<Rightarrow> jsstring list" where
  "splitWhitespace s =
     (let field = takeWhile (\<lambda>c. \<not> isWhiteSpace c) s;
          rest = dropWhile (\<lambda>c. \<not> isWhiteSpace c) s
      in if rest = [] then [field]
         else field # splitWhitespace (dropWhile isWhiteSpace rest))"
  by pat_completeness auto
termination
proof (relation "measure length")
  show "wf (measure length)" by simp
next
  fix s field rest :: jsstring
  assume r: "rest = dropWhile (\<lambda>c. \<not> isWhiteSpace c) s" and ne: "rest \<noteq> []"
  then obtain c cs where rc: "rest = c # cs" using list.exhaust by blast
  have "length (dropWhile isWhiteSpace rest) \<le> length rest" by (rule length_dropWhile_le)
  moreover have "isWhiteSpace c" using r rc by (metis hd_dropWhile list.sel(1) ne)
  ultimately have "length (dropWhile isWhiteSpace rest) < length rest"
    using rc by (simp add: le_imp_less_Suc length_dropWhile_le)
  moreover have "length rest \<le> length s" unfolding r by (rule length_dropWhile_le)
  ultimately show "(dropWhile isWhiteSpace rest, s) \<in> measure length" by simp
qed

text \<open>
  \<^verbatim>\<open>Intl.Segmenter\<close> belongs to the platform, not to the repository: the segmenter that
  \<^verbatim>\<open>getWordSegmenter\<close> returns is a parameter, \<^const>\<open>None\<close> when the platform has none
  (\<^verbatim>\<open>undefined\<close>). A segment carries its text and the flag \<^verbatim>\<open>isWordLike\<close>.
\<close>

record segment =
  seg_text :: jsstring
  isWordLike :: bool

type_synonym segmenter = "jsstring \<Rightarrow> segment list"

definition countWords :: "segmenter option \<Rightarrow> jsstring \<Rightarrow> nat" where
  "countWords segm txt =
     (case segm of
        None \<Rightarrow> length (filter (\<lambda>w. w \<noteq> []) (splitWhitespace txt))
      | Some sg \<Rightarrow> length (filter isWordLike (sg txt)))"

text \<open>
  \<^verbatim>\<open>Array.from(cleaned).length\<close> counts code points: a high surrogate followed by a low
  surrogate is one element.
\<close>

fun codePoints :: "jsstring \<Rightarrow> nat" where
  "codePoints [] = 0"
| "codePoints [c] = 1"
| "codePoints (c # d # cs) =
     (if 0xD800 \<le> c \<and> c \<le> 0xDBFF \<and> 0xDC00 \<le> d \<and> d \<le> 0xDFFF
      then 1 + codePoints cs else 1 + codePoints (d # cs))"

record token_estimate =
  tokens :: int
  words :: nat
  characters :: nat
  graphemes :: "nat option"

definition WORD_TOKEN_MULTIPLIER :: real where "WORD_TOKEN_MULTIPLIER = 1.33"

definition CHARS_PER_TOKEN :: real where "CHARS_PER_TOKEN = 4"

text \<open>
  The two early returns carry no \<^verbatim>\<open>graphemes\<close> field. \<^verbatim>\<open>!text\<close> is true for
  the empty string; \<^verbatim>\<open>words || 1\<close> replaces a word count of 0 by 1.
\<close>

definition zeroEstimate :: token_estimate where
  "zeroEstimate = \<lparr>tokens = 0, words = 0, characters = 0, graphemes = None\<rparr>"

definition estimateTokensFromText :: "segmenter option \<Rightarrow> jsstring \<Rightarrow> token_estimate" where
  "estimateTokensFromText segm txt =
     (if txt = [] then zeroEstimate
      else
        (let cleaned = trim (collapseWhitespace txt) in
         if cleaned = [] then zeroEstimate
         else
           (let wordCount = countWords segm cleaned;
                charCount = length (removeWhitespace cleaned);
                graphemeCount = codePoints cleaned;
                byWord = \<lceil>real (if wordCount = 0 then 1 else wordCount) * WORD_TOKEN_MULTIPLIER\<rceil>;
                byCharacter = \<lceil>real charCount / CHARS_PER_TOKEN\<rceil>;
                blended = round (real_of_int byWord * 0.4 + real_of_int byCharacter * 0.6);
                tks = max 1 (max byWord (max byCharacter blended))
            in \<lparr>tokens = tks, words = wordCount, characters = charCount,
                graphemes = Some graphemeCount\<rparr>)))"

subsection \<open>Parsing a file size\<close>

text \<open>
  A number is \<^verbatim>\<open>NaN\<close> or a real. \<^verbatim>\<open>NaN\<close> is kept apart because
  \<^verbatim>\<open>parseFloat\<close> can return it here.
\<close>

datatype jsnum = NaN | Num real

text \<open>\<^verbatim>\<open>estimateTokensFromBytes\<close>: 0 for a falsy or \<^verbatim>\<open>NaN\<close> argument.\<close>

fun estimateTokensFromBytes :: "jsnum \<Rightarrow> int" where
  "estimateTokensFromBytes NaN = 0"
| "estimateTokensFromBytes (Num b) = (if b = 0 then 0 else max 1 \<lceil>b / 4\<rceil>)"

definition isDigit :: "jschar \<Rightarrow> bool" where
  "isDigit c \<longleftrightarrow> 0x30 \<le> c \<and> c \<le> 0x39"

definition isNumChar :: "jschar \<Rightarrow> bool" where
  "isNumChar c \<longleftrightarrow> isDigit c \<or> c = 0x2E"

definition removeCommas :: "jsstring \<Rightarrow> jsstring" where
  "removeCommas s = filter (\<lambda>c. c \<noteq> 0x2C) s"

text \<open>
  The regular expression \<^verbatim>\<open>([\d.]+)\s*(kib|kb|mib|mb|gib|gb|tib|tb|b)\<close> with flag
  \<^verbatim>\<open>i\<close>. Without the flag \<^verbatim>\<open>u\<close>, a pattern letter matches exactly its lower-case
  and upper-case ASCII forms. The alternatives are tried in the order written. At a start
  position the greedy groups take the longest run of digits and dots and then the longest run
  of whitespace; giving characters back cannot help, since no unit starts with a digit, a dot or
  whitespace. \<^verbatim>\<open>String.prototype.match\<close> returns the match at the leftmost start position
  that has one. The model returns the two groups, the unit already in lower case
  (\<^verbatim>\<open>match[2].toLowerCase()\<close>).
\<close>

definition unitAlternatives :: "jsstring list" where
  "unitAlternatives =
     [js ''kib'', js ''kb'', js ''mib'', js ''mb'', js ''gib'', js ''gb'', js ''tib'', js ''tb'',
      js ''b'']"

definition matchesIgnoreCase :: "jschar \<Rightarrow> jschar \<Rightarrow> bool" where
  "matchesIgnoreCase p c \<longleftrightarrow> c = p \<or> (0x61 \<le> p \<and> p \<le> 0x7A \<and> c + 0x20 = p)"

fun prefixIgnoreCase :: "jsstring \<Rightarrow> jsstring \<Rightarrow> bool" where
  "prefixIgnoreCase [] s = True"
| "prefixIgnoreCase (p # ps) [] = False"
| "prefixIgnoreCase (p # ps) (c # cs) = (matchesIgnoreCase p c \<and> prefixIgnoreCase ps cs)"

definition matchUnit :: "jsstring \<Rightarrow> jsstring option" where
  "matchUnit s = find (\<lambda>u. prefixIgnoreCase u s) unitAlternatives"

definition matchAt :: "jsstring \<Rightarrow> (jsstring \<times> jsstring) option" where
  "matchAt s =
     (let num = takeWhile isNumChar s in
      if num = [] then None
      else (case matchUnit (dropWhile isWhiteSpace (dropWhile isNumChar s)) of
              None \<Rightarrow> None
            | Some u \<Rightarrow> Some (num, u)))"

fun sizeMatch :: "jsstring \<Rightarrow> (jsstring \<times> jsstring) option" where
  "sizeMatch [] = None"
| "sizeMatch (c # cs) =
     (case matchAt (c # cs) of Some m \<Rightarrow> Some m | None \<Rightarrow> sizeMatch cs)"

text \<open>
  \<^verbatim>\<open>parseFloat\<close> on a string of digits and dots: the longest prefix of the form
  digits, optional dot, digits, with at least one digit; \<^verbatim>\<open>NaN\<close> when there is none.
\<close>

definition digitsValue :: "jsstring \<Rightarrow> nat" where
  "digitsValue ds = foldl (\<lambda>acc d. 10 * acc + (d - 0x30)) 0 ds"

definition parseFloat :: "jsstring \<Rightarrow> jsnum" where
  "parseFloat s =
     (let ip = takeWhile isDigit s;
          r = dropWhile isDigit s;
          fp = (case r of [] \<Rightarrow> [] | d # r' \<Rightarrow> if d = 0x2E then takeWhile isDigit r' else [])
      in if ip = [] \<and> fp = [] then NaN
         else Num (real (digitsValue ip) + real (digitsValue fp) / 10 ^ length fp))"

fun jsTimes :: "jsnum \<Rightarrow> real \<Rightarrow> jsnum" where
  "jsTimes NaN k = NaN"
| "jsTimes (Num v) k = Num (v * k)"

definition parseFileSizeToBytes :: "jsstring \<Rightarrow> jsnum" where
  "parseFileSizeToBytes sizeText =
     (if sizeText = [] then Num 0
      else
        (case sizeMatch (removeCommas sizeText) of
           None \<Rightarrow> Num 0
         | Some (numText, unit) \<Rightarrow>
             (let v = parseFloat numText; base = 1024 in
              if unit = js ''tib'' \<or> unit = js ''tb'' then jsTimes v (base ^ 4)
              else if unit = js ''gib'' \<or> unit = js ''gb'' then jsTimes v (base ^ 3)
              else if unit = js ''mib'' \<or> unit = js ''mb'' then jsTimes v (base ^ 2)
              else if unit = js ''kib'' \<or> unit = js ''kb'' then jsTimes v base
              else v)))"

section \<open>Role classification (unifiedContentScript.js, determineMessageRole)\<close>

text \<open>
  An element is its attribute list and its child elements. \<^verbatim>\<open>querySelector\<close> with an
  attribute selector returns the first descendant, in document order, that has the attribute.
  \<^verbatim>\<open>el.dataset.messageAuthorRole\<close> reads the attribute
  \<^verbatim>\<open>data-message-author-role\<close>.
\<close>

datatype dom = Element (attributes: "(string \<times> jsstring) list") (children: "dom list")

definition getAttribute :: "dom \<Rightarrow> string \<Rightarrow> jsstring option" where
  "getAttribute el name = map_of (attributes el) name"

fun descendants :: "dom \<Rightarrow> dom list" where
  "descendants (Element as cs) = concat (map (\<lambda>c. c # descendants c) cs)"

definition querySelectorAttr :: "dom \<Rightarrow> string \<Rightarrow> dom option" where
  "querySelectorAttr el name = find (\<lambda>d. getAttribute d name \<noteq> None) (descendants el)"

text \<open>
  Truthiness of a string or \<^verbatim>\<open>null\<close>, and the operator \<^verbatim>\<open>||\<close> on such values;
  \<^verbatim>\<open>x || ''\<close> in particular.
\<close>

definition truthy :: "jsstring option \<Rightarrow> bool" where
  "truthy v \<longleftrightarrow> (case v of None \<Rightarrow> False | Some s \<Rightarrow> s \<noteq> [])"

definition jsOr :: "jsstring option \<Rightarrow> jsstring option \<Rightarrow> jsstring option" where
  "jsOr a b = (if truthy a then a else b)"

definition orEmpty :: "jsstring option \<Rightarrow> jsstring" where
  "orEmpty a = (case jsOr a (Some []) of Some s \<Rightarrow> s | None \<Rightarrow> [])"

text \<open>
  \<^verbatim>\<open>toLowerCase\<close>: ASCII capitals, and the two code units outside ASCII whose lower case
  contains an ASCII letter (U+0130 and U+212A). Every other code unit is left as it is: its
  lower case is outside ASCII and cannot take part in a match of the ASCII needles searched
  below.
\<close>

definition lowerUnit :: "jschar \<Rightarrow> jsstring" where
  "lowerUnit c =
     (if 0x41 \<le> c \<and> c \<le> 0x5A then [c + 0x20]
      else if c = 0x130 then [0x69, 0x307]
      else if c = 0x212A then [0x6B]
      else [c])"

definition toLowerCase :: "jsstring \<Rightarrow> jsstring" where
  "toLowerCase s = concat (map lowerUnit s)"

fun startsWith :: "jsstring \<Rightarrow> jsstring \<Rightarrow> bool" where
  "startsWith s [] = True"
| "startsWith [] (n # ns) = False"
| "startsWith (c # cs) (n # ns) = (c = n \<and> startsWith cs ns)"

fun jsIncludes :: "jsstring \<Rightarrow> jsstring \<Rightarrow> bool" where
  "jsIncludes [] n = (n = [])"
| "jsIncludes (c # cs) n = (startsWith (c # cs) n \<or> jsIncludes cs n)"

definition roleAttribute :: string where
  "roleAttribute = ''data-message-author-role''"

definition determineMessageRole :: "dom \<Rightarrow> nat \<Rightarrow> jsstring" where
  "determineMessageRole el index =
     (let roleAttr = jsOr (getAttribute el roleAttribute) (getAttribute el roleAttribute) in
      if truthy roleAttr then orEmpty roleAttr
      else
        (case querySelectorAttr el roleAttribute of
           Some nestedRoleEl \<Rightarrow> orEmpty (getAttribute nestedRoleEl roleAttribute)
         | None \<Rightarrow>
            (let testId = toLowerCase (orEmpty (getAttribute el ''data-testid'')) in
             if jsIncludes testId (js ''user'') then js ''user''
             else if jsIncludes testId (js ''assistant'') \<or> jsIncludes testId (js ''model'')
                     \<or> jsIncludes testId (js ''gpt'')
             then js ''assistant''
             else
               (let ariaLabel = toLowerCase (orEmpty (getAttribute el ''aria-label'')) in
                if jsIncludes ariaLabel (js ''you'') then js ''user''
                else if jsIncludes ariaLabel (js ''chatgpt'') \<or> jsIncludes ariaLabel (js ''assistant'')
                then js ''assistant''
                else if index mod 2 = 0 then js ''user'' else js ''assistant''))))"

subsection \<open>The specification's chain of classifiers\<close>

text \<open>
  The specification describes the classification as an ordered list of signals, the first one
  that matches deciding, with a positional fallback.
\<close>

type_synonym signal = "dom \<Rightarrow> jsstring option"

definition explicitRoleSignal :: signal where
  "explicitRoleSignal el =
     (case getAttribute el roleAttribute of
        Some v \<Rightarrow> if v \<noteq> [] then Some v else None
      | None \<Rightarrow> None)"

definition nestedRoleSignal :: signal where
  "nestedRoleSignal el =
     (case find (\<lambda>d. getAttribute d roleAttribute \<noteq> None) (descendants el) of
        Some d \<Rightarrow> getAttribute d roleAttribute
      | None \<Rightarrow> None)"

definition testIdSignal :: signal where
  "testIdSignal el =
     (let t = toLowerCase (case getAttribute el ''data-testid'' of Some v \<Rightarrow> v | None \<Rightarrow> []) in
      if jsIncludes t (js ''user'') then Some (js ''user'')
      else if jsIncludes t (js ''assistant'') \<or> jsIncludes t (js ''model'') \<or> jsIncludes t (js ''gpt'')
      then Some (js ''assistant'')
      else None)"

definition ariaLabelSignal :: signal where
  "ariaLabelSignal el =
     (let t = toLowerCase (case getAttribute el ''aria-label'' of Some v \<Rightarrow> v | None \<Rightarrow> []) in
      if jsIncludes t (js ''you'') then Some (js ''user'')
      else if jsIncludes t (js ''chatgpt'') \<or> jsIncludes t (js ''assistant'')
      then Some (js ''assistant'')
      else None)"

definition positionalFallback :: "nat \<Rightarrow> jsstring" where
  "positionalFallback index = (if even index then js ''user'' else js ''assistant'')"

fun firstMatch :: "signal list \<Rightarrow> dom \<Rightarrow> jsstring option" where
  "firstMatch [] el = None"
| "firstMatch (f # fs) el = (case f el of Some r \<Rightarrow> Some r | None \<Rightarrow> firstMatch fs el)"

section \<open>Selection and export (unifiedContentScript.js, ContextCollector)\<close>

text \<open>
  A scanned turn is a DOM element: its identity, its subtree (read by
  \<^const>\<open>determineMessageRole\<close>) and the text that \<^verbatim>\<open>extractTurnText\<close> returns for it,
  which is taken as given. \<^verbatim>\<open>selectedTurns\<close> is a JavaScript \<^verbatim>\<open>Map\<close> keyed by
  element identity; it is an association list in insertion order, which is the order
  \<^verbatim>\<open>entries()\<close> enumerates.
\<close>

record turn =
  turn_id :: nat
  turn_dom :: dom
  turn_text :: jsstring

record sel_data =
  sd_index :: nat
  sd_role :: jsstring
  sd_text :: jsstring
  sd_tokens :: int

type_synonym selection = "(nat \<times> sel_data) list"

record delimiter =
  preset :: string
  custom :: jsstring

record cc_state =
  allTurns :: "turn list"
  selectedTurns :: selection
  lastClickedIndex :: int

definition mapHas :: "selection \<Rightarrow> nat \<Rightarrow> bool" where
  "mapHas m k \<longleftrightarrow> map_of m k \<noteq> None"

definition mapDelete :: "selection \<Rightarrow> nat \<Rightarrow> selection" where
  "mapDelete m k = filter (\<lambda>e. fst e \<noteq> k) m"

definition mapSet :: "selection \<Rightarrow> nat \<Rightarrow> sel_data \<Rightarrow> selection" where
  "mapSet m k v =
     (if mapHas m k then map (\<lambda>e. if fst e = k then (k, v) else e) m else m @ [(k, v)])"

text \<open>\<^verbatim>\<open>allTurns[index]\<close>, \<^verbatim>\<open>undefined\<close> out of range.\<close>

definition turnAt :: "turn list \<Rightarrow> nat \<Rightarrow> turn option" where
  "turnAt ts i = (if i < length ts then Some (ts ! i) else None)"

text \<open>
  The token estimator is loaded with the content script
  (\<^verbatim>\<open>window.ChatGPTTokenEstimator\<close>); its segmenter is the parameter. Changes to CSS
  classes and \<^verbatim>\<open>updateUI\<close> do not touch the state modelled here.
\<close>

definition selectTurn :: "segmenter option \<Rightarrow> nat \<Rightarrow> cc_state \<Rightarrow> cc_state" where
  "selectTurn segm index st =
     (case turnAt (allTurns st) index of
        None \<Rightarrow> st
      | Some t \<Rightarrow>
          if mapHas (selectedTurns st) (turn_id t) then st
          else
            (let r = determineMessageRole (turn_dom t) index;
                 txt = turn_text t;
                 tks = tokens (estimateTokensFromText segm txt)
             in st\<lparr>selectedTurns :=
                     mapSet (selectedTurns st) (turn_id t)
                       \<lparr>sd_index = index, sd_role = r, sd_text = txt, sd_tokens = tks\<rparr>\<rparr>))"

definition toggleTurn :: "segmenter option \<Rightarrow> nat \<Rightarrow> cc_state \<Rightarrow> cc_state" where
  "toggleTurn segm index st =
     (case turnAt (allTurns st) index of
        None \<Rightarrow> st
      | Some t \<Rightarrow>
          if mapHas (selectedTurns st) (turn_id t)
          then st\<lparr>selectedTurns := mapDelete (selectedTurns st) (turn_id t)\<rparr>
          else selectTurn segm index st)"

text \<open>The loops \<^verbatim>\<open>for (i = start; i < stop; i++) selectTurn(i)\<close>.\<close>

definition selectRange :: "segmenter option \<Rightarrow> nat \<Rightarrow> nat \<Rightarrow> cc_state \<Rightarrow> cc_state" where
  "selectRange segm start stop st = foldl (\<lambda>s i. selectTurn segm i s) st [start..<stop]"

definition handleTurnClick :: "segmenter option \<Rightarrow> nat \<Rightarrow> bool \<Rightarrow> cc_state \<Rightarrow> cc_state" where
  "handleTurnClick segm index isShiftClick st =
     (let st' =
        (if isShiftClick \<and> lastClickedIndex st \<ge> 0
         then (let start = min (nat (lastClickedIndex st)) index;
                   stop = max (nat (lastClickedIndex st)) index
               in selectRange segm start (stop + 1) st)
         else toggleTurn segm index st)
      in st'\<lparr>lastClickedIndex := int index\<rparr>)"

definition clearSelection :: "cc_state \<Rightarrow> cc_state" where
  "clearSelection st = st\<lparr>selectedTurns := [], lastClickedIndex := - 1\<rparr>"

definition selectAll :: "segmenter option \<Rightarrow> cc_state \<Rightarrow> cc_state" where
  "selectAll segm st = selectRange segm 0 (length (allTurns st)) st"

definition selectLast :: "segmenter option \<Rightarrow> int \<Rightarrow> cc_state \<Rightarrow> cc_state" where
  "selectLast segm n st =
     (let st0 = clearSelection st;
          start = max 0 (int (length (allTurns st0)) - n)
      in selectRange segm (nat start) (length (allTurns st0)) st0)"

definition selectByRole :: "segmenter option \<Rightarrow> jsstring \<Rightarrow> cc_state \<Rightarrow> cc_state" where
  "selectByRole segm role st =
     foldl (\<lambda>s it. if determineMessageRole (turn_dom (snd it)) (fst it) = role
                     then selectTurn segm (fst it) s else s)
       (clearSelection st) (enumerate 0 (allTurns st))"

subsection \<open>Serialization\<close>

definition DELIMITER_PRESETS :: "(string \<times> jsstring) list" where
  "DELIMITER_PRESETS =
     [(''newline'', [0x0A, 0x0A]),
      (''dash'', [0x0A, 0x0A, 0x2D, 0x2D, 0x2D, 0x0A, 0x0A]),
      (''equals'', [0x0A, 0x0A, 0x3D, 0x3D, 0x3D, 0x0A, 0x0A]),
      (''custom'', [])]"

text \<open>\<^verbatim>\<open>s.replace(/\\x/g, r)\<close> for a backslash followed by one letter.\<close>

fun replacePair :: "jschar \<Rightarrow> jschar \<Rightarrow> jschar \<Rightarrow> jsstring \<Rightarrow> jsstring" where
  "replacePair a b r (c # d # cs) =
     (if c = a \<and> d = b then r # replacePair a b r cs else c # replacePair a b r (d # cs))"
| "replacePair a b r cs = cs"

definition getDelimiterValue :: "delimiter \<Rightarrow> jsstring" where
  "getDelimiterValue d =
     (if preset d = ''custom''
      then replacePair 0x5C 0x74 0x09
             (replacePair 0x5C 0x6E 0x0A (if custom d \<noteq> [] then custom d else [0x0A, 0x0A]))
      else (case map_of DELIMITER_PRESETS (preset d) of
              Some v \<Rightarrow> if v \<noteq> [] then v else [0x0A, 0x0A]
            | None \<Rightarrow> [0x0A, 0x0A]))"

text \<open>\<^verbatim>\<open>Array.prototype.join\<close>.\<close>

fun joinWith :: "jsstring \<Rightarrow> jsstring list \<Rightarrow> jsstring" where
  "joinWith sep [] = []"
| "joinWith sep [x] = x"
| "joinWith sep (x # x' # xs) = x @ sep @ joinWith sep (x' # xs)"

text \<open>
  \<^verbatim>\<open>JSON.stringify(messages, null, 2)\<close> on an array of objects with the string
  properties \<^verbatim>\<open>role\<close> and \<^verbatim>\<open>content\<close>: string quoting with the short escapes,
  \<^verbatim>\<open>\u\<close> escapes for the other control characters and for lone surrogates, an
  indentation of two spaces per level.
\<close>

definition hexDigit :: "nat \<Rightarrow> jschar" where
  "hexDigit n = (if n < 10 then 0x30 + n else 0x61 + (n - 10))"

definition unicodeEscape :: "jschar \<Rightarrow> jsstring" where
  "unicodeEscape c =
     [0x5C, 0x75, hexDigit (c div 4096 mod 16), hexDigit (c div 256 mod 16),
      hexDigit (c div 16 mod 16), hexDigit (c mod 16)]"

definition isHighSurrogate :: "jschar \<Rightarrow> bool" where
  "isHighSurrogate c \<longleftrightarrow> 0xD800 \<le> c \<and> c \<le> 0xDBFF"

definition isLowSurrogate :: "jschar \<Rightarrow> bool" where
  "isLowSurrogate c \<longleftrightarrow> 0xDC00 \<le> c \<and> c \<le> 0xDFFF"

definition escapeUnit :: "jschar \<Rightarrow> jsstring" where
  "escapeUnit c =
     (if c = 0x08 then [0x5C, 0x62]
      else if c = 0x09 then [0x5C, 0x74]
      else if c = 0x0A then [0x5C, 0x6E]
      else if c = 0x0C then [0x5C, 0x66]
      else if c = 0x0D then [0x5C, 0x72]
      else if c = 0x22 then [0x5C, 0x22]
      else if c = 0x5C then [0x5C, 0x5C]
      else if c < 0x20 \<or> isHighSurrogate c \<or> isLowSurrogate c then unicodeEscape c
      else [c])"

fun quoteChars :: "jsstring \<Rightarrow> jsstring" where
  "quoteChars [] = []"
| "quoteChars [c] = escapeUnit c"
| "quoteChars (c # d # cs) =
     (if isHighSurrogate c \<and> isLowSurrogate d then c # d # quoteChars cs
      else escapeUnit c @ quoteChars (d # cs))"

definition quoteJSONString :: "jsstring \<Rightarrow> jsstring" where
  "quoteJSONString s = 0x22 # quoteChars s @ [0x22]"

definition jsonMessage :: "sel_data \<Rightarrow> jsstring" where
  "jsonMessage data =
     js ''  {'' @ [0x0A] @ js ''    \"role\": '' @ quoteJSONString (sd_role data) @ js '','' @ [0x0A]
     @ js ''    \"content\": '' @ quoteJSONString (sd_text data) @ [0x0A] @ js ''  }''"

definition stringifyMessages :: "sel_data list \<Rightarrow> jsstring" where
  "stringifyMessages messages =
     (if messages = [] then js ''[]''
      else js ''['' @ [0x0A] @ joinWith (js '','' @ [0x0A]) (map jsonMessage messages)
           @ [0x0A] @ js '']'')"

text \<open>
  \<^verbatim>\<open>Array.from(selectedTurns.entries()).sort((a, b) => a[1].index - b[1].index)\<close>, a
  stable sort.
\<close>

definition sortedEntries :: "selection \<Rightarrow> selection" where
  "sortedEntries sel = sort_key (\<lambda>e. sd_index (snd e)) sel"

definition formatOutputAs :: "string \<Rightarrow> delimiter \<Rightarrow> selection \<Rightarrow> jsstring" where
  "formatOutputAs format currentDelimiter sel =
     (let sorted = sortedEntries sel;
          delim = getDelimiterValue currentDelimiter
      in if format = ''plain'' then
           joinWith delim
             (map (\<lambda>e. (if sd_role (snd e) = js ''user'' then js ''User'' else js ''Assistant'')
                         @ js '':'' @ [0x0A] @ sd_text (snd e)) sorted)
         else if format = ''json'' then stringifyMessages (map snd sorted)
         else if format = ''xml'' then
           joinWith [0x0A]
             (map (\<lambda>e. (let tag = (if sd_role (snd e) = js ''user'' then js ''user''
                                      else js ''assistant'')
                         in js ''<'' @ tag @ js ''>'' @ [0x0A] @ sd_text (snd e) @ [0x0A]
                            @ js ''</'' @ tag @ js ''>'')) sorted)
         else [])"

subsection \<open>Reference notions and concrete inputs\<close>

text \<open>
  The claimed token formula, with \<^verbatim>\<open>byWord = ceil(words * 1.33)\<close>.
\<close>

definition specTokens :: "nat \<Rightarrow> nat \<Rightarrow> int" where
  "specTokens w c =
     (let byWord = \<lceil>real w * 1.33\<rceil>;
          byChar = \<lceil>real c / 4\<rceil>;
          blended = round (real_of_int byWord * 0.4 + real_of_int byChar * 0.6)
      in max 1 (max byWord (max byChar blended)))"

text \<open>
  The serializations as the specification describes them: a plain message is the role label, a
  colon, a line break and the text; a tagged message is the text between a pair of role-named
  tags; a structured record has the two quoted properties \<^verbatim>\<open>role\<close> and
  \<^verbatim>\<open>content\<close>. Messages are written one after the other with the separator between
  each two of them.
\<close>

definition roleLabel :: "jsstring \<Rightarrow> jsstring" where
  "roleLabel r = (if r = js ''user'' then js ''User'' else js ''Assistant'')"

definition roleTag :: "jsstring \<Rightarrow> jsstring" where
  "roleTag r = (if r = js ''user'' then js ''user'' else js ''assistant'')"

definition plainMessage :: "sel_data \<Rightarrow> jsstring" where
  "plainMessage m = roleLabel (sd_role m) @ js '':'' @ [0x0A] @ sd_text m"

definition xmlMessage :: "sel_data \<Rightarrow> jsstring" where
  "xmlMessage m =
     js ''<'' @ roleTag (sd_role m) @ js ''>'' @ [0x0A] @ sd_text m @ [0x0A]
     @ js ''</'' @ roleTag (sd_role m) @ js ''>''"

definition jsonRecord :: "sel_data \<Rightarrow> jsstring" where
  "jsonRecord m =
     js ''  {'' @ [0x0A]
     @ js ''    \"role\": '' @ [0x22] @ quoteChars (sd_role m) @ [0x22] @ js '','' @ [0x0A]
     @ js ''    \"content\": '' @ [0x22] @ quoteChars (sd_text m) @ [0x22] @ [0x0A]
     @ js ''  }''"

definition separated :: "jsstring \<Rightarrow> jsstring list \<Rightarrow> jsstring" where
  "separated sep ms =
     (if ms = [] then [] else concat (map (\<lambda>m. m @ sep) (butlast ms)) @ last ms)"

definition plainUnit :: "jschar \<Rightarrow> bool" where
  "plainUnit c \<longleftrightarrow> 0x20 \<le> c \<and> c \<noteq> 0x22 \<and> c \<noteq> 0x5C \<and> (c < 0xD800 \<or> 0xDFFF < c)"

text \<open>
  A segmenter for evaluations on ASCII text: maximal runs of letters and digits are word-like
  segments, every other code unit is a segment that is not word-like (as
  \<^verbatim>\<open>Intl.Segmenter\<close> reports punctuation).
\<close>

definition isAsciiAlnum :: "jschar \<Rightarrow> bool" where
  "isAsciiAlnum c \<longleftrightarrow>
     (0x30 \<le> c \<and> c \<le> 0x39) \<or> (0x41 \<le> c \<and> c \<le> 0x5A) \<or> (0x61 \<le> c \<and> c \<le> 0x7A)"

function asciiWordSegmenter :: segmenter where
  "asciiWordSegmenter [] = []"
| "asciiWordSegmenter (c # cs) =
     (if isAsciiAlnum c
      then \<lparr>seg_text = c # takeWhile isAsciiAlnum cs, isWordLike = True\<rparr>
             # asciiWordSegmenter (dropWhile isAsciiAlnum cs)
      else \<lparr>seg_text = [c], isWordLike = False\<rparr> # asciiWordSegmenter cs)"
  by pat_completeness auto
termination
  by (relation "measure length") (auto simp: le_imp_less_Suc length_dropWhile_le)

text \<open>
  The entry \<^const>\<open>selectTurn\<close> stores for the turn at an index, a sequence of plain clicks,
  and the state on entering selection mode (the module's initial values, which
  \<^verbatim>\<open>exitSelectionMode\<close> restores, with the scanned turns).
\<close>

definition entryOf :: "segmenter option \<Rightarrow> turn list \<Rightarrow> nat \<Rightarrow> nat \<times> sel_data" where
  "entryOf segm ts i =
     (turn_id (ts ! i),
      \<lparr>sd_index = i, sd_role = determineMessageRole (turn_dom (ts ! i)) i,
       sd_text = turn_text (ts ! i),
       sd_tokens = tokens (estimateTokensFromText segm (turn_text (ts ! i)))\<rparr>)"

definition clicks :: "segmenter option \<Rightarrow> nat list \<Rightarrow> cc_state \<Rightarrow> cc_state" where
  "clicks segm cs st = foldl (\<lambda>s i. handleTurnClick segm i False s) st cs"

definition selectionStart :: "turn list \<Rightarrow> cc_state" where
  "selectionStart ts = \<lparr>allTurns = ts, selectedTurns = [], lastClickedIndex = - 1\<rparr>"

definition demoTurns :: "turn list" where
  "demoTurns =
     [\<lparr>turn_id = 10, turn_dom = Element [(''data-message-author-role'', js ''user'')] [],
       turn_text = js ''Hi''\<rparr>,
      \<lparr>turn_id = 11,
       turn_dom = Element [(''data-testid'', js ''conversation-turn-2'')]
                    [Element [] [Element [(''data-message-author-role'', js ''assistant'')] []]],
       turn_text = js ''Hello''\<rparr>,
      \<lparr>turn_id = 12, turn_dom = Element [(''aria-label'', js ''You said'')] [],
       turn_text = js ''Bye''\<rparr>,
      \<lparr>turn_id = 13, turn_dom = Element [] [], turn_text = js ''So long''\<rparr>]"

definition newlineDelimiter :: delimiter where
  "newlineDelimiter = \<lparr>preset = ''newline'', custom = []\<rparr>"

section \<open>Verification\<close>

subsection \<open>Prompt Navigator\<close>

lemma insort_key_snoc_max:
  "f x \<le> f e \<Longrightarrow> insort_key f x (ys @ [e]) = insort_key f x ys @ [e]"
  by (induction ys) auto

lemma sort_key_snoc_max:
  "\<forall>x\<in>set xs. f x \<le> f e \<Longrightarrow> sort_key f (xs @ [e]) = sort_key f xs @ [e]"
  by (induction xs) (auto simp: insort_key_snoc_max)

lemma turnAnchors_alt:
  "turnAnchors ctx ie = topAnchorOf ctx ie # (if isLarge ctx ie then [bottomAnchorOf ctx ie] else [])"
  by (simp add: turnAnchors_def topAnchorOf_def bottomAnchorOf_def isLarge_def Let_def)

lemma filter_top_turns:
  "filter (\<lambda>a. kind a = Top) (concat (map (turnAnchors ctx) ies)) = map (topAnchorOf ctx) ies"
  by (induction ies) (auto simp: turnAnchors_alt topAnchorOf_def bottomAnchorOf_def)

lemma filter_bottom_turns:
  "filter (\<lambda>a. kind a = Bottom) (concat (map (turnAnchors ctx) ies))
     = map (bottomAnchorOf ctx) (filter (isLarge ctx) ies)"
  by (induction ies) (auto simp: turnAnchors_alt topAnchorOf_def bottomAnchorOf_def)

lemma filter_end_turns:
  "filter (\<lambda>a. kind a = ChatBottom) (concat (map (turnAnchors ctx) ies)) = []"
  by (induction ies) (auto simp: turnAnchors_alt topAnchorOf_def bottomAnchorOf_def)

lemma mset_buildAnchors:
  "mset (buildAnchors pg ctx ps)
     = mset (concat (map (turnAnchors ctx) (enumerate 0 ps))) + {#endAnchor pg ctx ps#}"
  by (simp add: buildAnchors_def)

lemma filter_sort_key_single:
  assumes "filter P xs = [e]"
  shows "filter P (sort_key f xs) = [e]"
proof -
  have "mset (filter P (sort_key f xs)) = mset (filter P xs)"
    by (simp add: mset_filter)
  with assms show ?thesis by (metis mset_single_iff_right mset.simps(1,2) )
qed

lemma last_buildAnchors_iff:
  "kind (last (buildAnchors pg ctx ps)) = ChatBottom
     \<longleftrightarrow> (\<forall>a\<in>set (buildAnchors pg ctx ps). y a \<le> scrollHeightOf pg ctx)"
proof
  let ?xs = "concat (map (turnAnchors ctx) (enumerate 0 ps))"
  let ?e = "endAnchor pg ctx ps"
  let ?res = "buildAnchors pg ctx ps"
  have "length ?res \<noteq> 0" by (simp add: buildAnchors_def)
  then have ne: "?res \<noteq> []" by fastforce
  have srt: "sorted (map y ?res)" by (simp add: buildAnchors_def)
  have filt: "filter (\<lambda>a. kind a = ChatBottom) ?res = [?e]"
    unfolding buildAnchors_def
    by (rule filter_sort_key_single) (simp add: filter_end_turns endAnchor_def)
  {
    assume k: "kind (last ?res) = ChatBottom"
    have "last ?res \<in> set (filter (\<lambda>a. kind a = ChatBottom) ?res)"
      using k ne by simp
    then have le: "last ?res = ?e" unfolding filt by simp
    show "\<forall>a\<in>set ?res. y a \<le> scrollHeightOf pg ctx"
    proof
      fix a assume "a \<in> set ?res"
      then obtain i where i: "i < length ?res" "?res ! i = a" by (auto simp: in_set_conv_nth)
      have "map y ?res ! i \<le> map y ?res ! (length ?res - 1)"
        using srt i(1) by (intro sorted_nth_mono) auto
      then have "y a \<le> y (last ?res)" using i ne by (simp add: last_conv_nth)
      then show "y a \<le> scrollHeightOf pg ctx" by (simp add: le endAnchor_def)
    qed
  }
  {
    assume all: "\<forall>a\<in>set ?res. y a \<le> scrollHeightOf pg ctx"
    have "\<forall>x\<in>set ?xs. y x \<le> y ?e"
      using all by (simp add: buildAnchors_def endAnchor_def)
    then have "?res = sort_key y ?xs @ [?e]"
      unfolding buildAnchors_def by (rule sort_key_snoc_max)
    then show "kind (last ?res) = ChatBottom" by (simp add: endAnchor_def)
  }
qed

text \<open>
  C3 (as amended). For every list of turns and every geometry, \<^const>\<open>buildAnchors\<close> returns a
  list sorted ascending by offset; its top anchors are exactly one per turn (at the turn's start
  offset), its bottom anchors are exactly one for each turn whose height exceeds 80% of the
  viewport height (at the turn's end offset), and it holds exactly one end anchor, at the
  scrollable extent. The final element has the end kind if and only if no anchor's offset
  exceeds the scrollable extent.
\<close>

theorem buildAnchors_sorted_contents:
  "sorted (map y (buildAnchors pg ctx ps))
   \<and> mset (filter (\<lambda>a. kind a = Top) (buildAnchors pg ctx ps))
       = mset (map (topAnchorOf ctx) (enumerate 0 ps))
   \<and> mset (filter (\<lambda>a. kind a = Bottom) (buildAnchors pg ctx ps))
       = mset (map (bottomAnchorOf ctx) (filter (isLarge ctx) (enumerate 0 ps)))
   \<and> filter (\<lambda>a. kind a = ChatBottom) (buildAnchors pg ctx ps) = [endAnchor pg ctx ps]
   \<and> (kind (last (buildAnchors pg ctx ps)) = ChatBottom
        \<longleftrightarrow> (\<forall>a\<in>set (buildAnchors pg ctx ps). y a \<le> scrollHeightOf pg ctx))"
proof (intro conjI)
  show "sorted (map y (buildAnchors pg ctx ps))" by (simp add: buildAnchors_def)
  have m: "\<And>P. mset (filter P (buildAnchors pg ctx ps))
      = mset (filter P (concat (map (turnAnchors ctx) (enumerate 0 ps)) @ [endAnchor pg ctx ps]))"
    by (simp add: buildAnchors_def mset_filter)
  show "mset (filter (\<lambda>a. kind a = Top) (buildAnchors pg ctx ps))
       = mset (map (topAnchorOf ctx) (enumerate 0 ps))"
    unfolding m by (simp add: filter_top_turns endAnchor_def)
  show "mset (filter (\<lambda>a. kind a = Bottom) (buildAnchors pg ctx ps))
       = mset (map (bottomAnchorOf ctx) (filter (isLarge ctx) (enumerate 0 ps)))"
    unfolding m by (simp add: filter_bottom_turns endAnchor_def)
  show "filter (\<lambda>a. kind a = ChatBottom) (buildAnchors pg ctx ps) = [endAnchor pg ctx ps]"
    unfolding buildAnchors_def
    by (rule filter_sort_key_single) (simp add: filter_end_turns endAnchor_def)
  show "kind (last (buildAnchors pg ctx ps)) = ChatBottom
        \<longleftrightarrow> (\<forall>a\<in>set (buildAnchors pg ctx ps). y a \<le> scrollHeightOf pg ctx)"
    by (rule last_buildAnchors_iff)
qed

lemma buildAnchors_nonempty: "buildAnchors pg ctx ps \<noteq> []"
proof -
  have "length (buildAnchors pg ctx ps) \<noteq> 0" by (simp add: buildAnchors_def)
  then show ?thesis by fastforce
qed

lemma in_buildAnchors:
  assumes "a \<in> set (buildAnchors pg ctx ps)"
  shows "a = endAnchor pg ctx ps
         \<or> (\<exists>i<length ps. a = topAnchorOf ctx (i, ps ! i) \<or> a = bottomAnchorOf ctx (i, ps ! i))"
proof -
  from assms have "a = endAnchor pg ctx ps
      \<or> (\<exists>ie\<in>set (enumerate 0 ps). a \<in> set (turnAnchors ctx ie))"
    by (auto simp: buildAnchors_def)
  then show ?thesis
  proof
    assume "a = endAnchor pg ctx ps" then show ?thesis by simp
  next
    assume "\<exists>ie\<in>set (enumerate 0 ps). a \<in> set (turnAnchors ctx ie)"
    then obtain i el where ie: "(i, el) \<in> set (enumerate 0 ps)" and a: "a \<in> set (turnAnchors ctx (i, el))"
      by auto
    from ie have "i < length ps" "el = ps ! i" by (auto simp: in_set_enumerate_eq)
    with a show ?thesis by (auto simp: turnAnchors_alt split: if_splits)
  qed
qed

lemma findIndex_range: "- 1 \<le> findIndex P xs \<and> findIndex P xs < int (length xs)"
  by (induction xs) (auto simp: Let_def)

lemma find_Some_mem: "find P xs = Some x \<Longrightarrow> x \<in> set xs"
  by (induction xs) (auto split: if_splits)

lemma findTargetAnchor_mem:
  assumes "findTargetAnchor anchors pg ctx d la = Some t"
  shows "t \<in> set anchors"
proof -
  define ci where "ci = (case la of None \<Rightarrow> - 1
      | Some l \<Rightarrow> findIndex (\<lambda>a. element a = fst l \<and> kind a = snd l) anchors)"
  have r: "- 1 \<le> ci \<and> ci < int (length anchors)"
    unfolding ci_def using findIndex_range by (auto split: option.splits)
  show ?thesis
  proof (cases "ci = - 1")
    case True
    with assms have "find (\<lambda>a. getTargetScroll pg ctx a < scrollTop ctx - 10) (rev anchors) = Some t
      \<or> find (\<lambda>a. getTargetScroll pg ctx a > scrollTop ctx + 10) anchors = Some t"
      by (auto simp: findTargetAnchor_def ci_def Let_def split: if_splits)
    then show ?thesis by (auto dest: find_Some_mem)
  next
    case False
    with assms r have "(ci < int (length anchors) - 1 \<and> t = anchors ! nat (ci + 1))
        \<or> (0 < ci \<and> t = anchors ! nat (ci - 1))"
      by (auto simp: findTargetAnchor_def ci_def Let_def split: if_splits)
    with r False show ?thesis by (auto intro!: nth_mem)
  qed
qed

lemma jump_no_prompts: "prompts s = [] \<Longrightarrow> jump pg d s = (Failure ''no_prompts'', s, None)"
  by (simp add: jump_def)

lemma jump_no_target:
  "prompts s \<noteq> [] \<Longrightarrow>
   findTargetAnchor (buildAnchors pg (getScrollContext pg (prompts s)) (prompts s)) pg
      (getScrollContext pg (prompts s)) d (lastAnchor s) = None \<Longrightarrow>
   jump pg d s = (Failure ''no_target'', s, None)"
  by (simp add: jump_def Let_def buildAnchors_nonempty)

lemma jump_target:
  "prompts s \<noteq> [] \<Longrightarrow>
   findTargetAnchor (buildAnchors pg (getScrollContext pg (prompts s)) (prompts s)) pg
      (getScrollContext pg (prompts s)) d (lastAnchor s) = Some t \<Longrightarrow>
   jump pg d s =
     (Success (promptIndex t) (length (prompts s)),
      s\<lparr>lastAnchor := Some (element t, kind t),
        lastJumpTime := snd (scrollToAnchor t pg (getScrollContext pg (prompts s)) (lastJumpTime s))\<rparr>,
      Some (fst (scrollToAnchor t pg (getScrollContext pg (prompts s)) (lastJumpTime s))))"
  by (simp add: jump_def Let_def buildAnchors_nonempty split: prod.splits)

text \<open>
  C8 (as amended). Whenever \<^const>\<open>jump\<close> fails, the reason is one of \<^verbatim>\<open>no_prompts\<close>,
  \<^verbatim>\<open>no_anchors\<close>, \<^verbatim>\<open>no_target\<close>; with no scanned turns it fails with
  \<^verbatim>\<open>no_prompts\<close>. A success carries the total turn count and the \<^verbatim>\<open>promptIndex\<close>
  of the chosen anchor, which is recorded as the last anchor: the ordinal position of the
  anchor's turn for a top or bottom anchor, and the total turn count for the end anchor.
\<close>

theorem jump_result_reporting:
  "(\<forall>r. fst (jump pg d s) = Failure r \<longrightarrow> r \<in> {''no_prompts'', ''no_anchors'', ''no_target''})
   \<and> (prompts s = [] \<longrightarrow> fst (jump pg d s) = Failure ''no_prompts'')
   \<and> (\<forall>i n. fst (jump pg d s) = Success i n \<longrightarrow>
         n = length (prompts s)
         \<and> (\<exists>t\<in>set (buildAnchors pg (getScrollContext pg (prompts s)) (prompts s)).
               promptIndex t = i
               \<and> lastAnchor (fst (snd (jump pg d s))) = Some (element t, kind t)
               \<and> (if kind t = ChatBottom then i = n
                  else i < n \<and> element t = Some (node (prompts s ! i)))))"
proof -
  let ?ctx = "getScrollContext pg (prompts s)"
  let ?as = "buildAnchors pg ?ctx (prompts s)"
  show ?thesis
  proof (cases "prompts s = []")
    case True
    then show ?thesis by (simp add: jump_no_prompts)
  next
    case ne: False
    show ?thesis
    proof (cases "findTargetAnchor ?as pg ?ctx d (lastAnchor s)")
      case None
      with ne show ?thesis by (simp add: jump_no_target)
    next
      case (Some t)
      then have mem: "t \<in> set ?as" by (rule findTargetAnchor_mem)
      have shape: "if kind t = ChatBottom then promptIndex t = length (prompts s)
            else promptIndex t < length (prompts s)
                 \<and> element t = Some (node (prompts s ! promptIndex t))"
        using in_buildAnchors[OF mem]
        by (auto simp: endAnchor_def topAnchorOf_def bottomAnchorOf_def)
      have j: "fst (jump pg d s) = Success (promptIndex t) (length (prompts s))"
        and l: "lastAnchor (fst (snd (jump pg d s))) = Some (element t, kind t)"
        using jump_target[OF ne Some] by simp_all
      show ?thesis using ne mem shape j l by auto
    qed
  qed
qed

lemma turn_keys_subset:
  assumes "k \<in> set (map anchorKey (concat (map (turnAnchors ctx) (enumerate n ps))))"
  shows "\<exists>el\<in>set ps. fst k = Some (node el)"
proof -
  have "\<And>i el. (i, el) \<in> set (enumerate n ps) \<Longrightarrow> el \<in> set ps"
    by (metis enumerate_eq_zip in_set_zipE)
  with assms show ?thesis
    by (fastforce simp: turnAnchors_alt topAnchorOf_def bottomAnchorOf_def anchorKey_def
          split: if_splits)
qed

lemma turn_keys_distinct:
  "distinct (map node ps) \<Longrightarrow>
   distinct (map anchorKey (concat (map (turnAnchors ctx) (enumerate n ps))))"
proof (induction ps arbitrary: n)
  case Nil
  then show ?case by simp
next
  case (Cons p ps)
  have ih: "distinct (map anchorKey (concat (map (turnAnchors ctx) (enumerate (Suc n) ps))))"
    using Cons by simp
  have hd: "distinct (map anchorKey (turnAnchors ctx (n, p)))"
    by (simp add: turnAnchors_alt topAnchorOf_def bottomAnchorOf_def anchorKey_def)
  have keys: "set (map anchorKey (turnAnchors ctx (n, p))) \<subseteq> {(Some (node p), k) | k. True}"
    by (auto simp: turnAnchors_alt topAnchorOf_def bottomAnchorOf_def anchorKey_def)
  have disj: "set (map anchorKey (turnAnchors ctx (n, p)))
       \<inter> set (map anchorKey (concat (map (turnAnchors ctx) (enumerate (Suc n) ps)))) = {}"
  proof (rule ccontr)
    assume "\<not> ?thesis"
    then obtain k where k1: "k \<in> set (map anchorKey (turnAnchors ctx (n, p)))"
      and k2: "k \<in> set (map anchorKey (concat (map (turnAnchors ctx) (enumerate (Suc n) ps))))"
      by blast
    from k1 keys have "fst k = Some (node p)" by auto
    moreover from turn_keys_subset[OF k2] obtain el where "el \<in> set ps" "fst k = Some (node el)"
      by auto
    ultimately have "node p \<in> node ` set ps" by (metis image_eqI option.inject)
    with Cons.prems show False by simp
  qed
  show ?case using ih hd disj by simp
qed

lemma anchor_keys_distinct:
  assumes "distinct (map node ps)"
  shows "distinct (map anchorKey (buildAnchors pg ctx ps))"
proof -
  let ?xs = "concat (map (turnAnchors ctx) (enumerate 0 ps)) @ [endAnchor pg ctx ps]"
  have "anchorKey (endAnchor pg ctx ps)
       \<notin> set (map anchorKey (concat (map (turnAnchors ctx) (enumerate 0 ps))))"
    using turn_keys_subset[of "anchorKey (endAnchor pg ctx ps)" ctx 0 ps]
    by (auto simp: anchorKey_def endAnchor_def)
  then have "distinct (map anchorKey ?xs)"
    using turn_keys_distinct[OF assms, of ctx 0] by simp
  moreover have "mset (map anchorKey (buildAnchors pg ctx ps)) = mset (map anchorKey ?xs)"
    by (simp add: buildAnchors_def)
  ultimately show ?thesis by (metis mset_eq_imp_distinct_iff)
qed

lemma findIndex_distinct:
  "distinct (map g xs) \<Longrightarrow> j < length xs \<Longrightarrow> findIndex (\<lambda>a. g a = g (xs ! j)) xs = int j"
proof (induction xs arbitrary: j)
  case Nil
  then show ?case by simp
next
  case (Cons x xs)
  show ?case
  proof (cases j)
    case 0
    then show ?thesis by simp
  next
    case (Suc j')
    with Cons.prems have "g x \<noteq> g (xs ! j')" "findIndex (\<lambda>a. g a = g (xs ! j')) xs = int j'"
      using Cons.IH[of j'] by auto
    with Suc show ?thesis by (simp add: Let_def)
  qed
qed

lemma findIndex_anchor:
  assumes "distinct (map node ps)" "j < length (buildAnchors pg ctx ps)"
  shows "findIndex (\<lambda>a. element a = element (buildAnchors pg ctx ps ! j)
                        \<and> kind a = kind (buildAnchors pg ctx ps ! j)) (buildAnchors pg ctx ps) = int j"
  using findIndex_distinct[OF anchor_keys_distinct[OF assms(1)] assms(2)]
  by (simp add: anchorKey_def)

lemma findTargetAnchor_sequential:
  assumes "findIndex (\<lambda>a. element a = fst la \<and> kind a = snd la) anchors = int i"
  shows "findTargetAnchor anchors pg ctx ''next'' (Some la)
           = (if i + 1 < length anchors then Some (anchors ! (i + 1)) else None)"
    and "findTargetAnchor anchors pg ctx ''previous'' (Some la)
           = (if 0 < i then Some (anchors ! (i - 1)) else None)"
  using assms by (auto simp: findTargetAnchor_def Let_def nat_add_distrib nat_diff_distrib')

lemma sequential_step:
  assumes "distinct (map node (prompts s))" and "prompts s \<noteq> []"
    and "anchors = buildAnchors pg (getScrollContext pg (prompts s)) (prompts s)"
    and "lastAnchor s = Some la"
    and "findIndex (\<lambda>a. element a = fst la \<and> kind a = snd la) anchors = int i"
  shows "(i + 1 < length anchors \<longrightarrow>
            fst (jump pg ''next'' s) = Success (promptIndex (anchors ! (i + 1))) (length (prompts s))
            \<and> lastAnchor (fst (snd (jump pg ''next'' s)))
                = Some (element (anchors ! (i + 1)), kind (anchors ! (i + 1)))
            \<and> findIndex (\<lambda>a. element a = element (anchors ! (i + 1))
                               \<and> kind a = kind (anchors ! (i + 1))) anchors = int (i + 1))
       \<and> (i + 1 = length anchors \<longrightarrow> jump pg ''next'' s = (Failure ''no_target'', s, None))
       \<and> (0 < i \<longrightarrow>
            fst (jump pg ''previous'' s) = Success (promptIndex (anchors ! (i - 1))) (length (prompts s))
            \<and> lastAnchor (fst (snd (jump pg ''previous'' s)))
                = Some (element (anchors ! (i - 1)), kind (anchors ! (i - 1)))
            \<and> findIndex (\<lambda>a. element a = element (anchors ! (i - 1))
                               \<and> kind a = kind (anchors ! (i - 1))) anchors = int (i - 1))
       \<and> (i = 0 \<longrightarrow> jump pg ''previous'' s = (Failure ''no_target'', s, None))"
proof -
  let ?ctx = "getScrollContext pg (prompts s)"
  have ilt: "i < length anchors"
    using findIndex_range[of "\<lambda>a. element a = fst la \<and> kind a = snd la" anchors] assms(5) by simp
  have nx: "findTargetAnchor anchors pg ?ctx ''next'' (lastAnchor s)
           = (if i + 1 < length anchors then Some (anchors ! (i + 1)) else None)"
   and pv: "findTargetAnchor anchors pg ?ctx ''previous'' (lastAnchor s)
           = (if 0 < i then Some (anchors ! (i - 1)) else None)"
    using findTargetAnchor_sequential[OF assms(5)] assms(4) by simp_all
  have fi: "\<And>j. j < length anchors \<Longrightarrow>
      findIndex (\<lambda>a. element a = element (anchors ! j) \<and> kind a = kind (anchors ! j)) anchors = int j"
    unfolding assms(3) using findIndex_anchor[OF assms(1)] by blast
  have A: "i + 1 < length anchors \<longrightarrow>
            fst (jump pg ''next'' s) = Success (promptIndex (anchors ! (i + 1))) (length (prompts s))
            \<and> lastAnchor (fst (snd (jump pg ''next'' s)))
                = Some (element (anchors ! (i + 1)), kind (anchors ! (i + 1)))
            \<and> findIndex (\<lambda>a. element a = element (anchors ! (i + 1))
                               \<and> kind a = kind (anchors ! (i + 1))) anchors = int (i + 1)"
  proof
    assume lt: "i + 1 < length anchors"
    then have "findTargetAnchor anchors pg ?ctx ''next'' (lastAnchor s) = Some (anchors ! (i + 1))"
      using nx by simp
    from jump_target[OF assms(2) this[unfolded assms(3)]] fi[OF lt]
    show "fst (jump pg ''next'' s) = Success (promptIndex (anchors ! (i + 1))) (length (prompts s))
            \<and> lastAnchor (fst (snd (jump pg ''next'' s)))
                = Some (element (anchors ! (i + 1)), kind (anchors ! (i + 1)))
            \<and> findIndex (\<lambda>a. element a = element (anchors ! (i + 1))
                               \<and> kind a = kind (anchors ! (i + 1))) anchors = int (i + 1)"
      by (simp add: assms(3))
  qed
  have B: "i + 1 = length anchors \<longrightarrow> jump pg ''next'' s = (Failure ''no_target'', s, None)"
  proof
    assume "i + 1 = length anchors"
    then have "findTargetAnchor anchors pg ?ctx ''next'' (lastAnchor s) = None"
      using nx by simp
    from jump_no_target[OF assms(2) this[unfolded assms(3)]]
    show "jump pg ''next'' s = (Failure ''no_target'', s, None)" .
  qed
  have C: "0 < i \<longrightarrow>
            fst (jump pg ''previous'' s) = Success (promptIndex (anchors ! (i - 1))) (length (prompts s))
            \<and> lastAnchor (fst (snd (jump pg ''previous'' s)))
                = Some (element (anchors ! (i - 1)), kind (anchors ! (i - 1)))
            \<and> findIndex (\<lambda>a. element a = element (anchors ! (i - 1))
                               \<and> kind a = kind (anchors ! (i - 1))) anchors = int (i - 1)"
  proof
    assume lt: "0 < i"
    then have "findTargetAnchor anchors pg ?ctx ''previous'' (lastAnchor s) = Some (anchors ! (i - 1))"
      using pv by simp
    moreover have "i - 1 < length anchors" using ilt by simp
    ultimately show "fst (jump pg ''previous'' s) = Success (promptIndex (anchors ! (i - 1))) (length (prompts s))
            \<and> lastAnchor (fst (snd (jump pg ''previous'' s)))
                = Some (element (anchors ! (i - 1)), kind (anchors ! (i - 1)))
            \<and> findIndex (\<lambda>a. element a = element (anchors ! (i - 1))
                               \<and> kind a = kind (anchors ! (i - 1))) anchors = int (i - 1)"
      using jump_target[OF assms(2), of pg "''previous''" "anchors ! (i - 1)"] fi[of "i - 1"]
      by (simp add: assms(3))
  qed
  have D: "i = 0 \<longrightarrow> jump pg ''previous'' s = (Failure ''no_target'', s, None)"
  proof
    assume "i = 0"
    then have "findTargetAnchor anchors pg ?ctx ''previous'' (lastAnchor s) = None"
      using pv by simp
    from jump_no_target[OF assms(2) this[unfolded assms(3)]]
    show "jump pg ''previous'' s = (Failure ''no_target'', s, None)" .
  qed
  from A B C D show ?thesis by blast
qed

lemma findIndex_sat: "findIndex P xs = int i \<Longrightarrow> i < length xs \<and> P (xs ! i)"
proof (induction xs arbitrary: i)
  case Nil
  then show ?case by simp
next
  case (Cons x xs)
  show ?case
  proof (cases "P x")
    case True
    with Cons.prems show ?thesis by simp
  next
    case False
    with Cons.prems have r: "findIndex P xs \<noteq> - 1" "findIndex P xs + 1 = int i"
      by (auto simp: Let_def split: if_splits)
    then obtain j where j: "i = Suc j" by (cases i) auto
    with r have "findIndex P xs = int j" by simp
    from Cons.IH[OF this] j show ?thesis by simp
  qed
qed

lemma filter_end_buildAnchors:
  "filter (\<lambda>a. kind a = ChatBottom) (buildAnchors pg ctx ps) = [endAnchor pg ctx ps]"
  unfolding buildAnchors_def
  by (rule filter_sort_key_single) (simp add: filter_end_turns endAnchor_def)

lemma end_kind_is_endAnchor:
  assumes "a \<in> set (buildAnchors pg ctx ps)" "kind a = ChatBottom"
  shows "a = endAnchor pg ctx ps"
proof -
  from assms have "a \<in> set (filter (\<lambda>a. kind a = ChatBottom) (buildAnchors pg ctx ps))" by simp
  then show ?thesis unfolding filter_end_buildAnchors by simp
qed

lemma recorded_end_slot:
  assumes d: "distinct (map node ps)"
    and f: "findIndex (\<lambda>a. element a = fst la \<and> kind a = snd la) (buildAnchors pg ctx ps) = int i"
    and k: "snd la = ChatBottom"
  shows "i + 1 = length (buildAnchors pg ctx ps)
         \<longleftrightarrow> (\<forall>a\<in>set (buildAnchors pg ctx ps). y a \<le> scrollHeightOf pg ctx)"
proof -
  let ?as = "buildAnchors pg ctx ps"
  from findIndex_sat[OF f] k have i: "i < length ?as" and ki: "kind (?as ! i) = ChatBottom"
    by simp_all
  have ei: "?as ! i = endAnchor pg ctx ps"
    using i ki by (intro end_kind_is_endAnchor) simp_all
  have ne: "?as \<noteq> []" by (rule buildAnchors_nonempty)
  have dist: "distinct ?as"
    using anchor_keys_distinct[OF d, of pg ctx] by (rule distinct_map[THEN iffD1, THEN conjunct1])
  show ?thesis
  proof
    assume "i + 1 = length ?as"
    then have "length ?as - 1 = i" by arith
    then have "last ?as = ?as ! i" using ne by (simp add: last_conv_nth)
    with ki have "kind (last ?as) = ChatBottom" by simp
    then show "\<forall>a\<in>set ?as. y a \<le> scrollHeightOf pg ctx"
      by (simp only: last_buildAnchors_iff)
  next
    assume "\<forall>a\<in>set ?as. y a \<le> scrollHeightOf pg ctx"
    then have "kind (last ?as) = ChatBottom" by (simp only: last_buildAnchors_iff)
    moreover have "last ?as \<in> set ?as" using ne by simp
    ultimately have "last ?as = endAnchor pg ctx ps" by (intro end_kind_is_endAnchor)
    then have "?as ! (length ?as - 1) = ?as ! i" using ne ei by (simp add: last_conv_nth)
    moreover have "length ?as - 1 < length ?as" using ne by simp
    ultimately have "length ?as - 1 = i"
      using dist i by (simp add: nth_eq_iff_index_eq)
    then show "i + 1 = length ?as" using ne by (cases ?as) auto
  qed
qed

lemma next_from_recorded_end:
  assumes "distinct (map node (prompts s))" and "prompts s \<noteq> []"
    and "anchors = buildAnchors pg (getScrollContext pg (prompts s)) (prompts s)"
    and "lastAnchor s = Some la"
    and "findIndex (\<lambda>a. element a = fst la \<and> kind a = snd la) anchors = int i"
    and "snd la = ChatBottom"
  shows "fst (jump pg ''next'' s) = Failure ''no_target''
         \<longleftrightarrow> (\<forall>a\<in>set anchors. y a \<le> scrollHeightOf pg (getScrollContext pg (prompts s)))"
proof -
  note st = sequential_step[OF assms(1-5)]
  have i: "i < length anchors" using findIndex_sat[OF assms(5)] by simp
  have slot: "i + 1 = length anchors
      \<longleftrightarrow> (\<forall>a\<in>set anchors. y a \<le> scrollHeightOf pg (getScrollContext pg (prompts s)))"
    unfolding assms(3) using assms(1) assms(5)[unfolded assms(3)] assms(6)
    by (rule recorded_end_slot)
  show ?thesis
  proof (cases "i + 1 = length anchors")
    case True
    with st have "jump pg ''next'' s = (Failure ''no_target'', s, None)" by (simp only:)
    with True slot show ?thesis by simp
  next
    case False
    with i have lt: "i + 1 < length anchors" by simp
    from st have "i + 1 < length anchors \<longrightarrow>
        fst (jump pg ''next'' s) = Success (promptIndex (anchors ! (i + 1))) (length (prompts s))
        \<and> lastAnchor (fst (snd (jump pg ''next'' s)))
            = Some (element (anchors ! (i + 1)), kind (anchors ! (i + 1)))
        \<and> findIndex (\<lambda>a. element a = element (anchors ! (i + 1))
                           \<and> kind a = kind (anchors ! (i + 1))) anchors = int (i + 1)"
      by (rule conjunct1)
    with lt have "fst (jump pg ''next'' s)
        = Success (promptIndex (anchors ! (i + 1))) (length (prompts s))" by (simp only:)
    with False slot show ?thesis by simp
  qed
qed

lemma jump_keeps_prompts: "prompts (fst (snd (jump pg d s))) = prompts s"
  by (simp add: jump_def Let_def split: option.splits prod.splits)

text \<open>
  Two consecutive calls of \<^verbatim>\<open>jump('next')\<close> whose pages give the same anchor list move
  the recorded anchor from slot \<open>i\<close> to slot \<open>i + 2\<close>.
\<close>

lemma two_consecutive_next:
  assumes "distinct (map node (prompts s))" and "prompts s \<noteq> []"
    and "anchors = buildAnchors pg (getScrollContext pg (prompts s)) (prompts s)"
    and "anchors = buildAnchors pg' (getScrollContext pg' (prompts s)) (prompts s)"
    and "lastAnchor s = Some la"
    and "findIndex (\<lambda>a. element a = fst la \<and> kind a = snd la) anchors = int i"
    and "i + 2 < length anchors"
  shows "fst (jump pg' ''next'' (fst (snd (jump pg ''next'' s))))
           = Success (promptIndex (anchors ! (i + 2))) (length (prompts s))
         \<and> lastAnchor (fst (snd (jump pg' ''next'' (fst (snd (jump pg ''next'' s))))))
           = Some (element (anchors ! (i + 2)), kind (anchors ! (i + 2)))"
proof -
  let ?s1 = "fst (snd (jump pg ''next'' s))"
  let ?k = "(element (anchors ! (i + 1)), kind (anchors ! (i + 1)))"
  have p1: "prompts ?s1 = prompts s" by (rule jump_keeps_prompts)
  from sequential_step[OF assms(1,2,3,5,6)] assms(7)
  have l1: "lastAnchor ?s1 = Some ?k"
    and f1: "findIndex (\<lambda>a. element a = fst ?k \<and> kind a = snd ?k) anchors = int (i + 1)"
    by simp_all
  have d1: "distinct (map node (prompts ?s1))" and n1: "prompts ?s1 \<noteq> []"
    and a1: "anchors = buildAnchors pg' (getScrollContext pg' (prompts ?s1)) (prompts ?s1)"
    unfolding p1 using assms(1,2,4) by simp_all
  from sequential_step[OF d1 n1 a1 l1 f1] assms(7) show ?thesis
    by (simp add: p1)
qed

text \<open>
  C2 (as amended). With distinct scanned turns, a recorded anchor that is found at slot \<open>i\<close>
  of the rebuilt anchor list, and a non-empty scan: \<^verbatim>\<open>jump('next')\<close> selects and records
  the anchor at slot \<open>i + 1\<close>, whose slot in the same list is found as \<open>i + 1\<close>; from the
  last slot it fails with \<^verbatim>\<open>no_target\<close> and leaves the state unchanged. Symmetrically
  \<^verbatim>\<open>jump('previous')\<close> moves to slot \<open>i - 1\<close> and fails with \<^verbatim>\<open>no_target\<close>
  from slot 0. When the recorded anchor is the end anchor, \<^verbatim>\<open>jump('next')\<close> fails with
  \<^verbatim>\<open>no_target\<close> if and only if no anchor's offset exceeds the scrollable extent, which is
  when the end anchor is the last element.
\<close>

theorem sequential_navigation:
  assumes "distinct (map node (prompts s))" and "prompts s \<noteq> []"
    and "anchors = buildAnchors pg (getScrollContext pg (prompts s)) (prompts s)"
    and "lastAnchor s = Some la"
    and "findIndex (\<lambda>a. element a = fst la \<and> kind a = snd la) anchors = int i"
  shows "(i + 1 < length anchors \<longrightarrow>
            fst (jump pg ''next'' s) = Success (promptIndex (anchors ! (i + 1))) (length (prompts s))
            \<and> lastAnchor (fst (snd (jump pg ''next'' s)))
                = Some (element (anchors ! (i + 1)), kind (anchors ! (i + 1)))
            \<and> findIndex (\<lambda>a. element a = element (anchors ! (i + 1))
                               \<and> kind a = kind (anchors ! (i + 1))) anchors = int (i + 1))
       \<and> (i + 1 = length anchors \<longrightarrow> jump pg ''next'' s = (Failure ''no_target'', s, None))
       \<and> (0 < i \<longrightarrow>
            fst (jump pg ''previous'' s) = Success (promptIndex (anchors ! (i - 1))) (length (prompts s))
            \<and> lastAnchor (fst (snd (jump pg ''previous'' s)))
                = Some (element (anchors ! (i - 1)), kind (anchors ! (i - 1)))
            \<and> findIndex (\<lambda>a. element a = element (anchors ! (i - 1))
                               \<and> kind a = kind (anchors ! (i - 1))) anchors = int (i - 1))
       \<and> (i = 0 \<longrightarrow> jump pg ''previous'' s = (Failure ''no_target'', s, None))
       \<and> (snd la = ChatBottom \<longrightarrow>
            (fst (jump pg ''next'' s) = Failure ''no_target''
             \<longleftrightarrow> (\<forall>a\<in>set anchors.
                    y a \<le> scrollHeightOf pg (getScrollContext pg (prompts s)))))"
proof -
  note st = sequential_step[OF assms]
  have e: "snd la = ChatBottom \<longrightarrow>
            (fst (jump pg ''next'' s) = Failure ''no_target''
             \<longleftrightarrow> (\<forall>a\<in>set anchors.
                    y a \<le> scrollHeightOf pg (getScrollContext pg (prompts s))))"
    using next_from_recorded_end[OF assms] by (rule impI)
  note c1 = st[THEN conjunct1]
    and c2 = st[THEN conjunct2, THEN conjunct1]
    and c3 = st[THEN conjunct2, THEN conjunct2, THEN conjunct1]
    and c4 = st[THEN conjunct2, THEN conjunct2, THEN conjunct2]
  show ?thesis by (rule conjI[OF c1 conjI[OF c2 conjI[OF c3 conjI[OF c4 e]]]])
qed

subsection \<open>Evaluations at concrete pages\<close>

lemmas nav_defs = jump_def getScrollContext_def windowContext_def buildAnchors_def turnAnchors_def
  endAnchor_def scrollHeightOf_def findTargetAnchor_def getTargetScroll_def scrollToAnchor_def Let_def

lemma demo_context: "getScrollContext demoPage demoPrompts = windowContext demoPage"
  by (simp add: getScrollContext_def demoPage_def demoPrompts_def)

lemma demo_anchors:
  "buildAnchors demoPage (windowContext demoPage) demoPrompts =
     [\<lparr>element = Some 0, kind = Top, y = 56, promptIndex = 0\<rparr>,
      \<lparr>element = Some 1, kind = Top, y = 400, promptIndex = 1\<rparr>,
      \<lparr>element = Some 1, kind = Bottom, y = 1300, promptIndex = 1\<rparr>,
      \<lparr>element = None, kind = ChatBottom, y = 3000, promptIndex = 2\<rparr>]"
  by (simp add: nav_defs demoPage_def demoPrompts_def)

text \<open>
  C3, counterexample to the claim as stated: when the turns lie in a region that the page's
  scrollable extent does not cover (window context, extent 900, a turn at offset 2000), the
  final element of the sorted list is that turn's top anchor, not the end anchor.
\<close>

theorem buildAnchors_last_not_end:
  "kind (last (buildAnchors clippedPage (windowContext clippedPage)
           [\<lparr>node = 0, rect_top = 2000, rect_height = 100\<rparr>])) = Top"
  by (simp add: nav_defs clippedPage_def)

text \<open>C3, the amended statement at a page whose extent covers every anchor.\<close>

theorem buildAnchors_sorted_contents_witness:
  "sorted (map y (buildAnchors demoPage (windowContext demoPage) demoPrompts))
   \<and> kind (last (buildAnchors demoPage (windowContext demoPage) demoPrompts)) = ChatBottom"
proof -
  have h: "\<forall>a\<in>set (buildAnchors demoPage (windowContext demoPage) demoPrompts).
       y a \<le> scrollHeightOf demoPage (windowContext demoPage)"
    unfolding demo_anchors by (simp add: scrollHeightOf_def windowContext_def demoPage_def)
  with buildAnchors_sorted_contents[of demoPage "windowContext demoPage" demoPrompts]
  show ?thesis by blast
qed

text \<open>
  What the selection without a prior anchor guarantees is a direction for the offset before
  clamping.
\<close>

lemma first_jump_unclamped_direction:
  assumes "findTargetAnchor anchors pg ctx d None = Some t"
  shows "if d = ''previous'' then getTargetScroll pg ctx t < scrollTop ctx - 10
         else getTargetScroll pg ctx t > scrollTop ctx + 10"
  using assms by (auto simp: findTargetAnchor_def find_Some_iff split: if_splits)

text \<open>
  C1. With no prior anchor, at scroll offset 0, \<^verbatim>\<open>jump('previous')\<close> reports success on
  the first turn's top anchor (unclamped target -64) and applies the clamped offset 0, which is
  not smaller than the offset at the time of the call. At the maximal offset 2200,
  \<^verbatim>\<open>jump('next')\<close> reports success on a top anchor (unclamped target 2680) and applies
  the clamped offset 2200, which is not greater.
\<close>

theorem first_jump_clamped:
  "jump demoPage ''previous'' \<lparr>prompts = demoPrompts, lastAnchor = None, lastJumpTime = 0\<rparr>
     = (Success 0 2,
        \<lparr>prompts = demoPrompts, lastAnchor = Some (Some 0, Top), lastJumpTime = 1000\<rparr>,
        Some \<lparr>scroll_top = 0, behavior = ''smooth''\<rparr>)
   \<and> scrollTop (getScrollContext demoPage demoPrompts) = 0
   \<and> jump bottomPage ''next''
        \<lparr>prompts = [\<lparr>node = 0, rect_top = 600, rect_height = 100\<rparr>], lastAnchor = None, lastJumpTime = 0\<rparr>
     = (Success 0 1,
        \<lparr>prompts = [\<lparr>node = 0, rect_top = 600, rect_height = 100\<rparr>],
          lastAnchor = Some (Some 0, Top), lastJumpTime = 1000\<rparr>,
        Some \<lparr>scroll_top = 2200, behavior = ''smooth''\<rparr>)
   \<and> scrollTop (getScrollContext bottomPage [\<lparr>node = 0, rect_top = 600, rect_height = 100\<rparr>]) = 2200"
  by (simp add: nav_defs demoPage_def bottomPage_def demoPrompts_def)

text \<open>
  C8, counterexample to the claim as stated: with no scanned turns the reason is
  \<^verbatim>\<open>no_prompts\<close>, which is none of the three listed reasons; and a successful jump to the
  end anchor reports position 2 of 2 turns, which is no turn's ordinal position.
\<close>

theorem jump_reason_counterexample:
  "fst (jump demoPage ''next'' \<lparr>prompts = [], lastAnchor = None, lastJumpTime = 0\<rparr>)
     = Failure ''no_prompts''
   \<and> ''no_prompts'' \<notin> {''no_turns'', ''no_anchors'', ''no_target''}
   \<and> fst (jump demoPage ''next''
        \<lparr>prompts = demoPrompts, lastAnchor = Some (Some 1, Bottom), lastJumpTime = 0\<rparr>)
     = Success 2 2
   \<and> \<not> 2 < length demoPrompts"
  by (simp add: nav_defs demoPage_def demoPrompts_def)

text \<open>C8, the amended statement at an empty scan and at a successful first jump.\<close>

theorem jump_result_reporting_witness:
  "fst (jump demoPage ''next'' (navState [] None)) = Failure ''no_prompts''
   \<and> fst (jump demoPage ''next'' (navState demoPrompts None)) = Success 1 2
   \<and> (\<exists>t\<in>set (buildAnchors demoPage (getScrollContext demoPage demoPrompts) demoPrompts).
         promptIndex t = 1 \<and> kind t \<noteq> ChatBottom \<and> element t = Some (node (demoPrompts ! 1)))"
proof -
  have e: "prompts (navState [] None) = []" by (simp add: navState_def)
  have s: "fst (jump demoPage ''next'' (navState demoPrompts None)) = Success 1 2"
    by (simp add: nav_defs navState_def demoPage_def demoPrompts_def)
  have p: "prompts (navState demoPrompts None) = demoPrompts" by (simp add: navState_def)
  from jump_result_reporting[of demoPage "''next''" "navState [] None"] e
  have 1: "fst (jump demoPage ''next'' (navState [] None)) = Failure ''no_prompts''" by blast
  from jump_result_reporting[of demoPage "''next''" "navState demoPrompts None"] s
  have "\<exists>t\<in>set (buildAnchors demoPage (getScrollContext demoPage demoPrompts) demoPrompts).
         promptIndex t = 1
         \<and> (if kind t = ChatBottom then (1::nat) = 2
            else (1::nat) < 2 \<and> element t = Some (node (demoPrompts ! 1)))"
    unfolding p by fastforce
  then have 2: "\<exists>t\<in>set (buildAnchors demoPage (getScrollContext demoPage demoPrompts) demoPrompts).
         promptIndex t = 1 \<and> kind t \<noteq> ChatBottom \<and> element t = Some (node (demoPrompts ! 1))"
    by (metis numeral_eq_one_iff semiring_norm(85) one_eq_numeral_iff)
  from 1 s 2 show ?thesis by blast
qed

text \<open>
  C2, counterexample to the claim as stated: on the page whose scrollable extent (900) does not
  cover the turn at offset 2000, the sorted list is the end anchor followed by the turn's top
  anchor. With the end anchor recorded, \<^verbatim>\<open>jump('next')\<close> succeeds on the top anchor
  instead of failing with \<^verbatim>\<open>no_target\<close>. The end anchor gets recorded there by
  \<^verbatim>\<open>jump('next')\<close> followed by \<^verbatim>\<open>jump('previous')\<close> from a fresh state.
\<close>

theorem next_from_end_anchor_succeeds:
  "buildAnchors clippedPage (getScrollContext clippedPage clippedPrompts) clippedPrompts
     = [\<lparr>element = None, kind = ChatBottom, y = 900, promptIndex = 1\<rparr>,
        \<lparr>element = Some 0, kind = Top, y = 2000, promptIndex = 0\<rparr>]
   \<and> fst (jump clippedPage ''next'' (navState clippedPrompts (Some (None, ChatBottom))))
       = Success 0 1
   \<and> lastAnchor (fst (snd (jump clippedPage ''previous''
         (fst (snd (jump clippedPage ''next'' (navState clippedPrompts None)))))))
       = Some (None, ChatBottom)"
proof -
  have a: "buildAnchors clippedPage (getScrollContext clippedPage clippedPrompts) clippedPrompts
     = [\<lparr>element = None, kind = ChatBottom, y = 900, promptIndex = 1\<rparr>,
        \<lparr>element = Some 0, kind = Top, y = 2000, promptIndex = 0\<rparr>]"
    by (simp add: nav_defs clippedPage_def clippedPrompts_def)
  have b: "fst (jump clippedPage ''next'' (navState clippedPrompts (Some (None, ChatBottom))))
       = Success 0 1"
    by (simp add: nav_defs clippedPage_def clippedPrompts_def navState_def)
  have c1: "fst (snd (jump clippedPage ''next'' (navState clippedPrompts None)))
       = \<lparr>prompts = clippedPrompts, lastAnchor = Some (Some 0, Top), lastJumpTime = 1000\<rparr>"
    by (simp add: nav_defs clippedPage_def clippedPrompts_def navState_def)
  have c: "lastAnchor (fst (snd (jump clippedPage ''previous''
         \<lparr>prompts = clippedPrompts, lastAnchor = Some (Some 0, Top), lastJumpTime = 1000\<rparr>)))
       = Some (None, ChatBottom)"
    by (simp add: nav_defs clippedPage_def clippedPrompts_def)
  from a b c show ?thesis unfolding c1 by (intro conjI)
qed

text \<open>
  C2, the amended statement at a recorded first anchor (slot 0) and at a recorded end anchor
  (slot 3 of 4) on a page whose extent covers every anchor.
\<close>

theorem sequential_navigation_witness:
  "fst (jump demoPage ''next'' (navState demoPrompts (Some (Some 0, Top)))) = Success 1 2
   \<and> lastAnchor (fst (snd (jump demoPage ''next'' (navState demoPrompts (Some (Some 0, Top))))))
       = Some (Some 1, Top)
   \<and> jump demoPage ''previous'' (navState demoPrompts (Some (Some 0, Top)))
       = (Failure ''no_target'', navState demoPrompts (Some (Some 0, Top)), None)
   \<and> jump demoPage ''next'' (navState demoPrompts (Some (None, ChatBottom)))
       = (Failure ''no_target'', navState demoPrompts (Some (None, ChatBottom)), None)
   \<and> fst (jump demoPage ''previous'' (navState demoPrompts (Some (None, ChatBottom)))) = Success 1 2
   \<and> lastAnchor (fst (snd (jump demoPage ''previous'' (navState demoPrompts (Some (None, ChatBottom))))))
       = Some (Some 1, Bottom)"
proof -
  let ?as = "buildAnchors demoPage (windowContext demoPage) demoPrompts"
  have d: "\<And>la. distinct (map node (prompts (navState demoPrompts la)))"
    by (simp add: navState_def demoPrompts_def)
  have n: "\<And>la. prompts (navState demoPrompts la) \<noteq> []"
    by (simp add: navState_def demoPrompts_def)
  have a: "\<And>la. ?as = buildAnchors demoPage
       (getScrollContext demoPage (prompts (navState demoPrompts la))) (prompts (navState demoPrompts la))"
    by (simp add: navState_def demo_context)
  have l: "\<And>la. lastAnchor (navState demoPrompts (Some la)) = Some la"
    by (simp add: navState_def)
  have i0: "findIndex (\<lambda>a. element a = fst (Some 0, Top) \<and> kind a = snd (Some 0, Top)) ?as = int 0"
    unfolding demo_anchors by simp
  have i3: "findIndex (\<lambda>a. element a = fst (None, ChatBottom) \<and> kind a = snd (None, ChatBottom)) ?as = int 3"
    unfolding demo_anchors by simp
  have len: "length ?as = 4" unfolding demo_anchors by simp
  have a1: "?as ! 1 = \<lparr>element = Some 1, kind = Top, y = 400, promptIndex = 1\<rparr>"
    and a2: "?as ! 2 = \<lparr>element = Some 1, kind = Bottom, y = 1300, promptIndex = 1\<rparr>"
    unfolding demo_anchors by simp_all
  have pl: "\<And>la. length (prompts (navState demoPrompts la)) = 2"
    by (simp add: navState_def demoPrompts_def)
  from sequential_navigation[OF d n a l i0] len a1 pl
  have A: "fst (jump demoPage ''next'' (navState demoPrompts (Some (Some 0, Top)))) = Success 1 2
   \<and> lastAnchor (fst (snd (jump demoPage ''next'' (navState demoPrompts (Some (Some 0, Top))))))
       = Some (Some 1, Top)
   \<and> jump demoPage ''previous'' (navState demoPrompts (Some (Some 0, Top)))
       = (Failure ''no_target'', navState demoPrompts (Some (Some 0, Top)), None)"
    by simp
  from sequential_navigation[OF d n a l i3] len a2 pl
  have B: "jump demoPage ''next'' (navState demoPrompts (Some (None, ChatBottom)))
       = (Failure ''no_target'', navState demoPrompts (Some (None, ChatBottom)), None)
   \<and> fst (jump demoPage ''previous'' (navState demoPrompts (Some (None, ChatBottom)))) = Success 1 2
   \<and> lastAnchor (fst (snd (jump demoPage ''previous'' (navState demoPrompts (Some (None, ChatBottom))))))
       = Some (Some 1, Bottom)"
    by simp
  from A B show ?thesis by blast
qed

subsection \<open>Token estimator\<close>

lemma filter_not_dropWhile: "filter (\<lambda>c. \<not> P c) (dropWhile P xs) = filter (\<lambda>c. \<not> P c) xs"
  by (induction xs) auto

lemma space_isWhiteSpace: "isWhiteSpace 0x20"
  by (simp add: isWhiteSpace_def)

lemma removeWhitespace_collapse:
  "removeWhitespace (collapseWhitespace t) = removeWhitespace t"
proof (induction t rule: collapseWhitespace.induct)
  case 1
  then show ?case by simp
next
  case (2 c cs)
  show ?case
  proof (cases "isWhiteSpace c")
    case True
    with 2 have "removeWhitespace (collapseWhitespace (dropWhile isWhiteSpace cs))
        = removeWhitespace (dropWhile isWhiteSpace cs)" by simp
    with True show ?thesis
      by (simp add: removeWhitespace_def space_isWhiteSpace filter_not_dropWhile)
  next
    case False
    with 2 show ?thesis by (simp add: removeWhitespace_def)
  qed
qed

lemma removeWhitespace_trim: "removeWhitespace (trim s) = removeWhitespace s"
proof -
  have "removeWhitespace (trim s)
      = rev (filter (\<lambda>c. \<not> isWhiteSpace c) (dropWhile isWhiteSpace (rev (dropWhile isWhiteSpace s))))"
    by (simp add: removeWhitespace_def trim_def rev_filter)
  also have "\<dots> = rev (filter (\<lambda>c. \<not> isWhiteSpace c) (rev (dropWhile isWhiteSpace s)))"
    by (simp only: filter_not_dropWhile)
  also have "\<dots> = filter (\<lambda>c. \<not> isWhiteSpace c) (dropWhile isWhiteSpace s)"
    by (simp add: rev_filter)
  also have "\<dots> = removeWhitespace s"
    by (simp add: removeWhitespace_def filter_not_dropWhile)
  finally show ?thesis .
qed

lemma removeWhitespace_cleaned:
  "removeWhitespace (trim (collapseWhitespace t)) = removeWhitespace t"
  by (simp add: removeWhitespace_trim removeWhitespace_collapse)

lemma trim_all_whitespace:
  assumes "\<forall>c\<in>set s. isWhiteSpace c"
  shows "trim s = []"
proof -
  have a: "dropWhile isWhiteSpace s = []" using assms by simp
  show ?thesis unfolding trim_def a by simp
qed

lemma in_set_dropWhile_not: "x \<in> set xs \<Longrightarrow> \<not> P x \<Longrightarrow> x \<in> set (dropWhile P xs)"
  by (induction xs) auto

lemma cleaned_empty_iff:
  "trim (collapseWhitespace t) = [] \<longleftrightarrow> (\<forall>c\<in>set t. isWhiteSpace c)"
proof
  assume "trim (collapseWhitespace t) = []"
  then have "removeWhitespace (trim (collapseWhitespace t)) = []"
    by (simp add: removeWhitespace_def)
  then have "removeWhitespace t = []" by (simp add: removeWhitespace_cleaned)
  then show "\<forall>c\<in>set t. isWhiteSpace c"
    by (auto simp: removeWhitespace_def filter_empty_conv)
next
  assume all: "\<forall>c\<in>set t. isWhiteSpace c"
  then have "removeWhitespace t = []" by (auto simp: removeWhitespace_def filter_empty_conv)
  then have "removeWhitespace (collapseWhitespace t) = []"
    by (simp add: removeWhitespace_collapse)
  then have "\<forall>c\<in>set (collapseWhitespace t). isWhiteSpace c"
    by (auto simp: removeWhitespace_def filter_empty_conv)
  then show "trim (collapseWhitespace t) = []" by (rule trim_all_whitespace)
qed

lemma splitWhitespace_has_word:
  "\<exists>c\<in>set s. \<not> isWhiteSpace c \<Longrightarrow> \<exists>w\<in>set (splitWhitespace s). w \<noteq> []"
proof (induction s rule: splitWhitespace.induct)
  case (1 s)
  let ?field = "takeWhile (\<lambda>c. \<not> isWhiteSpace c) s"
  let ?rest = "dropWhile (\<lambda>c. \<not> isWhiteSpace c) s"
  show ?case
  proof (cases "?field = []")
    case False
    have "?field \<in> set (splitWhitespace s)"
      by (subst splitWhitespace.simps) (simp add: Let_def)
    with False show ?thesis by blast
  next
    case True
    then have rs: "?rest = s" by (metis takeWhile_dropWhile_id append_Nil)
    from "1.prems" have sne: "s \<noteq> []" by auto
    have "\<exists>c\<in>set (dropWhile isWhiteSpace ?rest). \<not> isWhiteSpace c"
      unfolding rs using "1.prems" in_set_dropWhile_not[of _ s isWhiteSpace] by blast
    with "1.IH"[OF refl refl] rs sne
    have "\<exists>w\<in>set (splitWhitespace (dropWhile isWhiteSpace ?rest)). w \<noteq> []" by simp
    moreover have "splitWhitespace s = ?field # splitWhitespace (dropWhile isWhiteSpace ?rest)"
      using rs sne by (subst splitWhitespace.simps) (simp add: Let_def)
    ultimately show ?thesis by simp
  qed
qed

lemma countWords_fallback_pos:
  assumes "trim (collapseWhitespace t) \<noteq> []"
  shows "0 < countWords None (trim (collapseWhitespace t))"
proof -
  let ?cl = "trim (collapseWhitespace t)"
  from assms have "\<not> (\<forall>c\<in>set t. isWhiteSpace c)" by (simp add: cleaned_empty_iff)
  then have "removeWhitespace t \<noteq> []"
    by (simp add: removeWhitespace_def filter_empty_conv)
  then have "removeWhitespace ?cl \<noteq> []"
    by (simp add: removeWhitespace_cleaned)
  then have "\<exists>c\<in>set ?cl. \<not> isWhiteSpace c"
    by (simp add: removeWhitespace_def filter_empty_conv)
  then have "\<exists>w\<in>set (splitWhitespace ?cl). w \<noteq> []" by (rule splitWhitespace_has_word)
  then have "filter (\<lambda>w. w \<noteq> []) (splitWhitespace ?cl) \<noteq> []"
    by (auto simp: filter_empty_conv)
  then show ?thesis by (simp add: countWords_def)
qed

text \<open>
  C4 (as amended). When the text is empty or consists of whitespace only, the estimate is
  tokens = words = characters = 0. Otherwise words is the word count of the normalized text,
  characters is its number of non-whitespace code units (which is that of the text itself), and
  tokens is the claimed formula evaluated with the word count replaced by 1 when it is 0; tokens
  is at least 1. With the whitespace-splitting fallback the word count is never 0.
\<close>

theorem estimateTokensFromText_formula:
  "(if (\<forall>c\<in>set t. isWhiteSpace c)
    then estimateTokensFromText segm t = \<lparr>tokens = 0, words = 0, characters = 0, graphemes = None\<rparr>
    else words (estimateTokensFromText segm t) = countWords segm (trim (collapseWhitespace t))
       \<and> characters (estimateTokensFromText segm t)
           = length (removeWhitespace (trim (collapseWhitespace t)))
       \<and> characters (estimateTokensFromText segm t) = length (removeWhitespace t)
       \<and> tokens (estimateTokensFromText segm t)
           = specTokens (if words (estimateTokensFromText segm t) = 0 then 1
                         else words (estimateTokensFromText segm t))
               (characters (estimateTokensFromText segm t))
       \<and> 1 \<le> tokens (estimateTokensFromText segm t)
       \<and> (segm = None \<longrightarrow> 0 < words (estimateTokensFromText segm t)))"
proof (cases "\<forall>c\<in>set t. isWhiteSpace c")
  case True
  then have "trim (collapseWhitespace t) = []" by (simp add: cleaned_empty_iff)
  with True show ?thesis by (simp add: estimateTokensFromText_def zeroEstimate_def)
next
  case False
  then have ne: "trim (collapseWhitespace t) \<noteq> []" by (simp add: cleaned_empty_iff)
  from False have tne: "t \<noteq> []" by auto
  have w: "words (estimateTokensFromText segm t) = countWords segm (trim (collapseWhitespace t))"
    by (simp only: estimateTokensFromText_def Let_def if_not_P[OF ne] if_not_P[OF tne]
          token_estimate.select_convs)
  have c: "characters (estimateTokensFromText segm t)
      = length (removeWhitespace (trim (collapseWhitespace t)))"
    by (simp only: estimateTokensFromText_def Let_def if_not_P[OF ne] if_not_P[OF tne]
          token_estimate.select_convs)
  have tk: "tokens (estimateTokensFromText segm t)
      = specTokens (if countWords segm (trim (collapseWhitespace t)) = 0 then 1
                    else countWords segm (trim (collapseWhitespace t)))
          (length (removeWhitespace (trim (collapseWhitespace t))))"
    by (simp only: estimateTokensFromText_def specTokens_def Let_def if_not_P[OF ne]
          if_not_P[OF tne] token_estimate.select_convs WORD_TOKEN_MULTIPLIER_def
          CHARS_PER_TOKEN_def)
  have ge: "1 \<le> tokens (estimateTokensFromText segm t)"
    unfolding tk specTokens_def Let_def by (rule max.cobounded1)
  have fb: "segm = None \<longrightarrow> 0 < words (estimateTokensFromText segm t)"
    unfolding w using countWords_fallback_pos[OF ne] by simp
  show ?thesis
    unfolding if_not_P[OF False] using w c tk ge fb by (simp add: removeWhitespace_cleaned)
qed

lemma punctuation_estimate:
  "estimateTokensFromText (Some asciiWordSegmenter) (js ''!!!'')
     = \<lparr>tokens = 2, words = 0, characters = 3, graphemes = Some 3\<rparr>"
proof -
  have j: "js ''!!!'' = [33, 33, 33]" by (simp add: js_def)
  have c: "trim (collapseWhitespace [33, 33, 33]) = [33, 33, 33]"
    by (simp add: isWhiteSpace_def trim_def)
  have w: "countWords (Some asciiWordSegmenter) [33, 33, 33] = 0"
    by (simp add: countWords_def isAsciiAlnum_def)
  have ch: "length (removeWhitespace [33, 33, 33]) = 3"
    by (simp add: removeWhitespace_def isWhiteSpace_def)
  have g: "codePoints [33, 33, 33] = 3" by simp
  show ?thesis
    unfolding estimateTokensFromText_def j c Let_def w ch g
    by (simp add: WORD_TOKEN_MULTIPLIER_def CHARS_PER_TOKEN_def round_def)
qed

lemma specTokens_values: "specTokens 0 3 = 1" "specTokens 1 3 = 2"
  by (simp_all add: specTokens_def round_def)

text \<open>
  C4, counterexample to the claim as stated: on the text \<^verbatim>\<open>!!!\<close>, where the segmenter
  reports no word-like segment, the word count is 0 and there are 3 characters; the code
  returns 2 tokens, the claimed formula gives 1.
\<close>

theorem estimate_zero_words_counterexample:
  "words (estimateTokensFromText (Some asciiWordSegmenter) (js ''!!!'')) = 0
   \<and> characters (estimateTokensFromText (Some asciiWordSegmenter) (js ''!!!'')) = 3
   \<and> tokens (estimateTokensFromText (Some asciiWordSegmenter) (js ''!!!'')) = 2
   \<and> specTokens 0 3 = 1"
  by (simp add: punctuation_estimate specTokens_values)

text \<open>C4, the amended statement at a whitespace-only text and at \<^verbatim>\<open>!!!\<close>.\<close>

theorem estimateTokensFromText_formula_witness:
  "estimateTokensFromText None (js ''  '')
     = \<lparr>tokens = 0, words = 0, characters = 0, graphemes = None\<rparr>
   \<and> tokens (estimateTokensFromText (Some asciiWordSegmenter) (js ''!!!'')) = specTokens 1 3
   \<and> 0 < words (estimateTokensFromText None (js ''!!!''))"
proof -
  have h1: "\<forall>c\<in>set (js ''  ''). isWhiteSpace c"
    by (simp add: js_def isWhiteSpace_def)
  have h2: "\<not> (\<forall>c\<in>set (js ''!!!''). isWhiteSpace c)"
    by (simp add: js_def isWhiteSpace_def)
  note a = estimateTokensFromText_formula[of "js ''  ''" None, unfolded if_P[OF h1]]
  note b = estimateTokensFromText_formula[of "js ''!!!''" "Some asciiWordSegmenter",
      unfolded if_not_P[OF h2]]
  note c = estimateTokensFromText_formula[of "js ''!!!''" None, unfolded if_not_P[OF h2]]
  from b have "tokens (estimateTokensFromText (Some asciiWordSegmenter) (js ''!!!''))
      = specTokens (if words (estimateTokensFromText (Some asciiWordSegmenter) (js ''!!!'')) = 0
                    then 1 else words (estimateTokensFromText (Some asciiWordSegmenter) (js ''!!!'')))
          (characters (estimateTokensFromText (Some asciiWordSegmenter) (js ''!!!'')))"
    by blast
  then have t: "tokens (estimateTokensFromText (Some asciiWordSegmenter) (js ''!!!''))
      = specTokens 1 3"
    by (simp add: punctuation_estimate)
  from c have w: "0 < words (estimateTokensFromText None (js ''!!!''))" by blast
  from a t w show ?thesis by blast
qed

subsection \<open>Parsing a file size\<close>

lemma parseFileSize_no_match:
  "sizeMatch (removeCommas t) = None \<Longrightarrow> parseFileSizeToBytes t = Num 0"
  by (simp add: parseFileSizeToBytes_def)

lemma parseFileSize_NaN_iff:
  "parseFileSizeToBytes t = NaN \<longleftrightarrow>
     t \<noteq> [] \<and> (\<exists>n u. sizeMatch (removeCommas t) = Some (n, u) \<and> parseFloat n = NaN)"
proof -
  have k: "\<And>v k. jsTimes v k = NaN \<longleftrightarrow> v = NaN"
    by (case_tac v) simp_all
  show ?thesis
    by (auto simp: parseFileSizeToBytes_def Let_def k split: option.splits)
qed

lemmas size_defs = js_def sizeMatch.simps matchAt_def matchUnit_def unitAlternatives_def
  isNumChar_def isDigit_def isWhiteSpace_def matchesIgnoreCase_def removeCommas_def Let_def

lemma match_mb: "sizeMatch (removeCommas (js ''1.5 MB'')) = Some (js ''1.5'', js ''mb'')"
  by (simp add: size_defs)

lemma match_gib: "sizeMatch (removeCommas (js ''2 GiB'')) = Some (js ''2'', js ''gib'')"
  by (simp add: size_defs)

lemma match_garbage: "sizeMatch (removeCommas (js ''garbage'')) = None"
  by (simp add: size_defs)

lemma match_file_bin: "sizeMatch (removeCommas (js ''file.bin'')) = Some (js ''.'', js ''b'')"
  by (simp add: size_defs)

lemma parseFloat_1_5: "parseFloat (js ''1.5'') = Num 1.5"
  by (simp add: js_def parseFloat_def isDigit_def digitsValue_def)

lemma parseFloat_2: "parseFloat (js ''2'') = Num 2"
  by (simp add: js_def parseFloat_def isDigit_def digitsValue_def)

lemma parseFloat_dot: "parseFloat (js ''.'') = NaN"
  by (simp add: js_def parseFloat_def isDigit_def digitsValue_def)

lemma examples_nonempty: "js ''1.5 MB'' \<noteq> []" "js ''2 GiB'' \<noteq> []" "js ''garbage'' \<noteq> []" "js ''file.bin'' \<noteq> []"
  by (simp_all add: js_def)

lemma units_distinct: "js ''mb'' \<noteq> js ''tib''" "js ''mb'' \<noteq> js ''tb''" "js ''mb'' \<noteq> js ''gib''" "js ''mb'' \<noteq> js ''gb''"
  "js ''mb'' \<noteq> js ''mib''" 
  "js ''gib'' \<noteq> js ''tib''" "js ''gib'' \<noteq> js ''tb''"
  "js ''b'' \<noteq> js ''tib''" "js ''b'' \<noteq> js ''tb''" "js ''b'' \<noteq> js ''gib''" "js ''b'' \<noteq> js ''gb''"
  "js ''b'' \<noteq> js ''mib''" "js ''b'' \<noteq> js ''mb''" "js ''b'' \<noteq> js ''kib''" "js ''b'' \<noteq> js ''kb''"
  by (simp_all add: js_def)

text \<open>
  C7. The two examples of the claim hold, and \<^verbatim>\<open>garbage\<close>, in which the pattern finds
  nothing, gives 0. On \<^verbatim>\<open>file.bin\<close> the pattern matches the dot and the unit
  \<^verbatim>\<open>b\<close>, \<^verbatim>\<open>parseFloat('.')\<close> is \<^verbatim>\<open>NaN\<close>, and the result is
  \<^verbatim>\<open>NaN\<close>, not 0.
\<close>

theorem parseFileSize_values:
  "parseFileSizeToBytes (js ''1.5 MB'') = Num (1.5 * 1024 ^ 2)
   \<and> parseFileSizeToBytes (js ''2 GiB'') = Num (2 * 1024 ^ 3)
   \<and> parseFileSizeToBytes (js ''garbage'') = Num 0
   \<and> parseFileSizeToBytes (js ''file.bin'') = NaN"
  unfolding parseFileSizeToBytes_def match_mb match_gib match_garbage match_file_bin Let_def
  by (simp add: examples_nonempty units_distinct parseFloat_1_5 parseFloat_2 parseFloat_dot)

subsection \<open>Role classification\<close>

lemma orEmpty_simps: "orEmpty None = []" "orEmpty (Some v) = v"
  by (auto simp: orEmpty_def jsOr_def truthy_def)

lemma find_attr_Some:
  "find (\<lambda>d. getAttribute d a \<noteq> None) ds = Some d \<Longrightarrow> \<exists>v. getAttribute d a = Some v"
  by (induction ds) (auto split: if_splits)

text \<open>
  C5. For every element and index, \<^const>\<open>determineMessageRole\<close> is the first match of the chain:
  the element's own role attribute (when not empty), the role attribute of the first nested
  element that has one, a substring match on the lower-cased test-id, a substring match on the
  lower-cased aria-label; and when none matches, the positional fallback, which classifies even
  indices as user and odd indices as assistant.
\<close>

theorem determineMessageRole_chain:
  "determineMessageRole el index =
     (case firstMatch [explicitRoleSignal, nestedRoleSignal, testIdSignal, ariaLabelSignal] el of
        Some r \<Rightarrow> r
      | None \<Rightarrow> positionalFallback index)"
proof (cases "explicitRoleSignal el")
  case (Some v)
  then show ?thesis
    by (auto simp: determineMessageRole_def explicitRoleSignal_def jsOr_def truthy_def
          orEmpty_simps split: option.splits if_splits)
next
  case None
  then have nt: "\<not> truthy (jsOr (getAttribute el roleAttribute) (getAttribute el roleAttribute))"
    by (auto simp: explicitRoleSignal_def jsOr_def truthy_def split: option.splits if_splits)
  show ?thesis
  proof (cases "querySelectorAttr el roleAttribute")
    case (Some d)
    then obtain v where v: "getAttribute d roleAttribute = Some v"
      unfolding querySelectorAttr_def using find_attr_Some by blast
    from Some v have "nestedRoleSignal el = Some v"
      by (simp add: nestedRoleSignal_def querySelectorAttr_def)
    with None nt Some v show ?thesis
      by (simp add: determineMessageRole_def orEmpty_simps)
  next
    case qn: None
    then have n2: "nestedRoleSignal el = None"
      by (simp add: nestedRoleSignal_def querySelectorAttr_def)
    have oe: "\<And>a. orEmpty a = (case a of Some v \<Rightarrow> v | None \<Rightarrow> [])"
      by (simp add: orEmpty_simps split: option.splits)
    show ?thesis
      using None nt qn n2
      by (simp add: determineMessageRole_def testIdSignal_def ariaLabelSignal_def
            positionalFallback_def oe Let_def even_iff_mod_2_eq_zero)
  qed
qed

subsection \<open>Selection\<close>

lemma mapHas_iff: "mapHas m k \<longleftrightarrow> k \<in> fst ` set m"
  by (simp add: mapHas_def map_of_eq_None_iff)

lemma turnAt_Some: "i < length ts \<Longrightarrow> turnAt ts i = Some (ts ! i)"
  by (simp add: turnAt_def)

lemma turnAt_None: "\<not> i < length ts \<Longrightarrow> turnAt ts i = None"
  by (simp add: turnAt_def)

lemma selectTurn_frame [simp]:
  "allTurns (selectTurn segm i st) = allTurns st"
  "lastClickedIndex (selectTurn segm i st) = lastClickedIndex st"
  by (simp_all add: selectTurn_def Let_def split: option.splits)

lemma selectTurn_selected:
  "selectedTurns (selectTurn segm i st) =
     (if i < length (allTurns st) \<and> \<not> mapHas (selectedTurns st) (turn_id (allTurns st ! i))
      then selectedTurns st @ [entryOf segm (allTurns st) i]
      else selectedTurns st)"
  by (simp add: selectTurn_def turnAt_def mapSet_def entryOf_def Let_def)

lemma selectTurn_keys:
  "fst ` set (selectedTurns (selectTurn segm i st)) =
     fst ` set (selectedTurns st)
       \<union> (if i < length (allTurns st) then {turn_id (allTurns st ! i)} else {})"
  by (auto simp: selectTurn_selected mapHas_iff entryOf_def)

lemma toggleTurn_frame [simp]:
  "allTurns (toggleTurn segm i st) = allTurns st"
  "lastClickedIndex (toggleTurn segm i st) = lastClickedIndex st"
  by (simp_all add: toggleTurn_def split: option.splits)

lemma toggleTurn_selected:
  "selectedTurns (toggleTurn segm i st) =
     (if i < length (allTurns st)
      then (if mapHas (selectedTurns st) (turn_id (allTurns st ! i))
            then mapDelete (selectedTurns st) (turn_id (allTurns st ! i))
            else selectedTurns st @ [entryOf segm (allTurns st) i])
      else selectedTurns st)"
  by (simp add: toggleTurn_def turnAt_def selectTurn_selected)

lemma mapDelete_keys: "fst ` set (mapDelete m k) = fst ` set m - {k}"
  by (auto simp: mapDelete_def)

lemma foldl_selectTurn_frame [simp]:
  "allTurns (foldl (\<lambda>s i. selectTurn segm i s) st is) = allTurns st"
  "lastClickedIndex (foldl (\<lambda>s i. selectTurn segm i s) st is) = lastClickedIndex st"
  by (induction "is" arbitrary: st) simp_all

lemma foldl_selectTurn_keys:
  "fst ` set (selectedTurns (foldl (\<lambda>s i. selectTurn segm i s) st is)) =
     fst ` set (selectedTurns st)
       \<union> {turn_id (allTurns st ! j) | j. j \<in> set is \<and> j < length (allTurns st)}"
proof (induction "is" arbitrary: st)
  case Nil
  then show ?case by simp
next
  case (Cons i "is")
  show ?case
    unfolding foldl_Cons Cons.IH selectTurn_keys selectTurn_frame
    by auto
qed

lemma foldl_selectTurn_prefix:
  "take (length (selectedTurns st)) (selectedTurns (foldl (\<lambda>s i. selectTurn segm i s) st is))
     = selectedTurns st
   \<and> length (selectedTurns st) \<le> length (selectedTurns (foldl (\<lambda>s i. selectTurn segm i s) st is))"
proof (induction "is" arbitrary: st)
  case Nil
  then show ?case by simp
next
  case (Cons i "is")
  let ?st1 = "selectTurn segm i st"
  have 1: "take (length (selectedTurns st)) (selectedTurns ?st1) = selectedTurns st"
    and 2: "length (selectedTurns st) \<le> length (selectedTurns ?st1)"
    by (simp_all add: selectTurn_selected)
  from Cons.IH[of ?st1]
  have 3: "take (length (selectedTurns ?st1))
             (selectedTurns (foldl (\<lambda>s i. selectTurn segm i s) ?st1 is)) = selectedTurns ?st1"
    and 4: "length (selectedTurns ?st1)
             \<le> length (selectedTurns (foldl (\<lambda>s i. selectTurn segm i s) ?st1 is))"
    by simp_all
  have "take (length (selectedTurns st))
          (selectedTurns (foldl (\<lambda>s i. selectTurn segm i s) ?st1 is))
        = take (length (selectedTurns st)) (take (length (selectedTurns ?st1))
          (selectedTurns (foldl (\<lambda>s i. selectTurn segm i s) ?st1 is)))"
    using 2 by (simp add: min_def)
  also have "\<dots> = selectedTurns st" unfolding 3 by (rule 1)
  finally show ?case using 2 4 by simp
qed

lemma selectRange_keys:
  "fst ` set (selectedTurns (selectRange segm a b st)) =
     fst ` set (selectedTurns st)
       \<union> {turn_id (allTurns st ! j) | j. a \<le> j \<and> j < b \<and> j < length (allTurns st)}"
  unfolding selectRange_def foldl_selectTurn_keys by auto

lemma selectRange_frame [simp]:
  "allTurns (selectRange segm a b st) = allTurns st"
  "lastClickedIndex (selectRange segm a b st) = lastClickedIndex st"
  by (simp_all add: selectRange_def)

lemma handleTurnClick_membership:
  "lastClickedIndex (handleTurnClick segm i shift st) = int i
   \<and> allTurns (handleTurnClick segm i shift st) = allTurns st
   \<and> (if shift \<and> 0 \<le> lastClickedIndex st
       then \<forall>k. mapHas (selectedTurns (handleTurnClick segm i shift st)) k
              \<longleftrightarrow> mapHas (selectedTurns st) k
                  \<or> (\<exists>j. min (nat (lastClickedIndex st)) i \<le> j
                          \<and> j \<le> max (nat (lastClickedIndex st)) i
                          \<and> j < length (allTurns st) \<and> turn_id (allTurns st ! j) = k)
       else \<forall>k. mapHas (selectedTurns (handleTurnClick segm i shift st)) k
              \<longleftrightarrow> (if i < length (allTurns st) \<and> k = turn_id (allTurns st ! i)
                   then \<not> mapHas (selectedTurns st) k
                   else mapHas (selectedTurns st) k))"
proof (cases "shift \<and> 0 \<le> lastClickedIndex st")
  case True
  then have h: "handleTurnClick segm i shift st
      = (selectRange segm (min (nat (lastClickedIndex st)) i)
           (max (nat (lastClickedIndex st)) i + 1) st)\<lparr>lastClickedIndex := int i\<rparr>"
    by (simp add: handleTurnClick_def Let_def)
  show ?thesis
    unfolding h using True
    by (auto simp: mapHas_iff selectRange_keys less_Suc_eq_le)
next
  case False
  then have h: "handleTurnClick segm i shift st = (toggleTurn segm i st)\<lparr>lastClickedIndex := int i\<rparr>"
    by (auto simp: handleTurnClick_def Let_def)
  show ?thesis
    unfolding h using False
    by (auto simp: mapHas_iff toggleTurn_selected mapDelete_keys entryOf_def)
qed

lemma set_drop_nth: "set (drop k xs) = {xs ! j | j. k \<le> j \<and> j < length xs}"
proof (intro set_eqI iffI)
  fix x assume "x \<in> set (drop k xs)"
  then obtain i where "i < length (drop k xs)" "drop k xs ! i = x"
    by (auto simp: in_set_conv_nth)
  then have "k \<le> k + i \<and> k + i < length xs \<and> x = xs ! (k + i)" by auto
  then show "x \<in> {xs ! j | j. k \<le> j \<and> j < length xs}" by blast
next
  fix x assume "x \<in> {xs ! j | j. k \<le> j \<and> j < length xs}"
  then obtain j where j: "k \<le> j" "j < length xs" "x = xs ! j" by blast
  then have "j - k < length (drop k xs)" "drop k xs ! (j - k) = x" by auto
  then show "x \<in> set (drop k xs)" by (metis nth_mem)
qed

lemma selectLast_keys:
  "fst ` set (selectedTurns (selectLast segm (int n) st))
     = turn_id ` set (drop (length (allTurns st) - min n (length (allTurns st))) (allTurns st))"
proof -
  let ?ts = "allTurns st"
  have s: "nat (max 0 (int (length ?ts) - int n)) = length ?ts - min n (length ?ts)"
    by arith
  have "fst ` set (selectedTurns (selectLast segm (int n) st))
      = {turn_id (?ts ! j) | j. length ?ts - min n (length ?ts) \<le> j \<and> j < length ?ts}"
    by (auto simp: selectLast_def Let_def clearSelection_def selectRange_keys s)
  also have "\<dots> = turn_id ` set (drop (length ?ts - min n (length ?ts)) ?ts)"
    unfolding set_drop_nth by blast
  finally show ?thesis .
qed

lemma foldl_role_frame [simp]:
  "allTurns (foldl (\<lambda>s it. if P it then selectTurn segm (fst it) s else s) st its) = allTurns st"
  by (induction its arbitrary: st) simp_all

lemma foldl_role_keys:
  "fst ` set (selectedTurns
       (foldl (\<lambda>s it. if P it then selectTurn segm (fst it) s else s) st its))
   = fst ` set (selectedTurns st)
       \<union> {turn_id (allTurns st ! fst it) | it. it \<in> set its \<and> P it \<and> fst it < length (allTurns st)}"
proof (induction its arbitrary: st)
  case Nil
  then show ?case by simp
next
  case (Cons it its)
  show ?case
  proof (cases "P it")
    case True
    obtain a b where it: "it = (a, b)" by (cases it)
    show ?thesis
      unfolding foldl_Cons Cons.IH using True
      by (simp add: selectTurn_keys it) (safe; force)
  next
    case False
    then show ?thesis
      unfolding foldl_Cons Cons.IH by auto
  qed
qed

lemma selectByRole_keys:
  "fst ` set (selectedTurns (selectByRole segm role st))
     = {turn_id (allTurns st ! j) | j.
          j < length (allTurns st) \<and> determineMessageRole (turn_dom (allTurns st ! j)) j = role}"
proof -
  have e: "\<And>it. it \<in> set (enumerate 0 (allTurns st))
      \<longleftrightarrow> fst it < length (allTurns st) \<and> snd it = allTurns st ! fst it"
    by (auto simp: in_set_enumerate_eq)
  have "fst ` set (selectedTurns (selectByRole segm role st))
     = {turn_id (allTurns st ! fst it) | it. it \<in> set (enumerate 0 (allTurns st))
          \<and> determineMessageRole (turn_dom (snd it)) (fst it) = role
          \<and> fst it < length (allTurns st)}"
    unfolding selectByRole_def foldl_role_keys by (simp add: clearSelection_def)
  also have "\<dots> = {turn_id (allTurns st ! j) | j.
          j < length (allTurns st) \<and> determineMessageRole (turn_dom (allTurns st ! j)) j = role}"
    unfolding e by force
  finally show ?thesis .
qed

lemma selectAll_keys:
  "fst ` set (selectedTurns (selectAll segm st))
     = fst ` set (selectedTurns st) \<union> turn_id ` set (allTurns st)"
proof -
  have "turn_id ` set (allTurns st)
      = {turn_id (allTurns st ! j) | j. 0 \<le> j \<and> j < length (allTurns st) \<and> j < length (allTurns st)}"
    unfolding set_conv_nth by blast
  then show ?thesis unfolding selectAll_def selectRange_keys by simp
qed

lemma selectAll_keeps:
  "take (length (selectedTurns st)) (selectedTurns (selectAll segm st)) = selectedTurns st"
  unfolding selectAll_def selectRange_def using foldl_selectTurn_prefix by blast

text \<open>
  C9 (as amended). A click records the clicked index as the last interacted index. A plain
  click (or a shift-click when no last interacted index exists) on a scanned turn toggles that
  turn's membership in the selection and changes no other turn's. A shift-click, when a last
  interacted index exists, selects every scanned turn in the index range from the last
  interacted index to the clicked index inclusive: turns in the range that were selected stay
  selected, and no turn is deselected.
\<close>

theorem handleTurnClick_toggle_or_extend:
  "lastClickedIndex (handleTurnClick segm i shift st) = int i
   \<and> allTurns (handleTurnClick segm i shift st) = allTurns st
   \<and> (if shift \<and> 0 \<le> lastClickedIndex st
       then \<forall>k. mapHas (selectedTurns (handleTurnClick segm i shift st)) k
              \<longleftrightarrow> mapHas (selectedTurns st) k
                  \<or> (\<exists>j. min (nat (lastClickedIndex st)) i \<le> j
                          \<and> j \<le> max (nat (lastClickedIndex st)) i
                          \<and> j < length (allTurns st) \<and> turn_id (allTurns st ! j) = k)
       else \<forall>k. mapHas (selectedTurns (handleTurnClick segm i shift st)) k
              \<longleftrightarrow> (if i < length (allTurns st) \<and> k = turn_id (allTurns st ! i)
                   then \<not> mapHas (selectedTurns st) k
                   else mapHas (selectedTurns st) k))"
  by (rule handleTurnClick_membership)

text \<open>
  C10. After \<^verbatim>\<open>selectLast(n)\<close> the selection's keys are exactly the last
  \<open>min n total\<close> scanned turns, and after \<^verbatim>\<open>selectByRole(role)\<close> exactly the scanned
  turns that \<^const>\<open>determineMessageRole\<close> classifies with that role, whatever was selected
  before. \<^verbatim>\<open>selectAll\<close> adds every scanned turn and keeps the entries that were there,
  in their order.
\<close>

theorem bulk_selection:
  "fst ` set (selectedTurns (selectLast segm (int n) st))
     = turn_id ` set (drop (length (allTurns st) - min n (length (allTurns st))) (allTurns st))
   \<and> fst ` set (selectedTurns (selectByRole segm role st))
     = {turn_id (allTurns st ! j) | j.
          j < length (allTurns st) \<and> determineMessageRole (turn_dom (allTurns st ! j)) j = role}
   \<and> fst ` set (selectedTurns (selectAll segm st))
     = fst ` set (selectedTurns st) \<union> turn_id ` set (allTurns st)
   \<and> take (length (selectedTurns st)) (selectedTurns (selectAll segm st)) = selectedTurns st"
  by (intro conjI selectLast_keys selectByRole_keys selectAll_keys selectAll_keeps)

subsection \<open>Export\<close>

lemma filter_key_single:
  "distinct (map f zs) \<Longrightarrow> k \<in> set zs \<Longrightarrow> filter (\<lambda>x. f k = f x) zs = [k]"
proof (induction zs)
  case Nil
  then show ?case by simp
next
  case (Cons z zs)
  show ?case
  proof (cases "k = z")
    case True
    with Cons.prems have "\<forall>x\<in>set zs. f k \<noteq> f x" by auto
    then have "filter (\<lambda>x. f k = f x) zs = []" by (simp add: filter_empty_conv)
    with True show ?thesis by simp
  next
    case False
    with Cons.prems have "k \<in> set zs" by auto
    moreover from this Cons.prems have "f k \<noteq> f z" by (metis distinct.simps(2) image_eqI list.simps(9) set_map)
    ultimately have "k \<in> set zs" "f k \<noteq> f z" by auto
    with Cons show ?thesis by simp
  qed
qed

lemma sort_key_unique:
  assumes "distinct (map f xs)" "mset xs = mset ys"
  shows "sort_key f xs = sort_key f ys"
proof (rule properties_for_sort_key)
  show "mset (sort_key f ys) = mset xs" using assms(2) by simp
  show "sorted (map f (sort_key f ys))" by simp
  have dy: "distinct (map f ys)"
    using assms by (metis mset_eq_imp_distinct_iff mset_map)
  fix k assume k: "k \<in> set (sort_key f ys)"
  then have ky: "k \<in> set ys" by simp
  then have kx: "k \<in> set xs" using assms(2) by (metis mset_eq_setD)
  have ds: "distinct (map f (sort_key f ys))"
    using dy by (metis mset_eq_imp_distinct_iff mset_map mset_sort)
  show "filter (\<lambda>x. f k = f x) (sort_key f ys) = filter (\<lambda>x. f k = f x) xs"
    using filter_key_single[OF ds k] filter_key_single[OF assms(1) kx] by simp
qed

lemma formatOutputAs_order:
  assumes "distinct (map (\<lambda>e. sd_index (snd e)) sel1)" "mset sel1 = mset sel2"
  shows "formatOutputAs fmt d sel1 = formatOutputAs fmt d sel2"
    and "sortedEntries sel1 = sortedEntries sel2"
    and "sorted (map (\<lambda>e. sd_index (snd e)) (sortedEntries sel1))"
proof -
  show s: "sortedEntries sel1 = sortedEntries sel2"
    unfolding sortedEntries_def using assms by (rule sort_key_unique)
  show "formatOutputAs fmt d sel1 = formatOutputAs fmt d sel2"
    unfolding formatOutputAs_def s ..
  show "sorted (map (\<lambda>e. sd_index (snd e)) (sortedEntries sel1))"
    by (simp add: sortedEntries_def)
qed

lemma clicks_fresh:
  assumes "distinct (map turn_id ts)" "allTurns st = ts"
    and "selectedTurns st = map (entryOf segm ts) pre"
    and "distinct (pre @ cs)" "\<forall>i\<in>set (pre @ cs). i < length ts"
  shows "selectedTurns (clicks segm cs st) = map (entryOf segm ts) (pre @ cs)
         \<and> allTurns (clicks segm cs st) = ts"
  using assms
proof (induction cs arbitrary: st pre)
  case Nil
  then show ?case by (simp add: clicks_def)
next
  case (Cons c cs)
  let ?st1 = "handleTurnClick segm c False st"
  have c: "c < length ts" "c \<notin> set pre" using Cons.prems by auto
  have "turn_id (ts ! c) \<notin> turn_id ` (\<lambda>i. ts ! i) ` set pre"
  proof
    assume "turn_id (ts ! c) \<in> turn_id ` (\<lambda>i. ts ! i) ` set pre"
    then obtain i where i: "i \<in> set pre" "turn_id (ts ! i) = turn_id (ts ! c)" by auto
    then have "i < length ts" using Cons.prems by auto
    with i c Cons.prems(1) have "i = c"
      by (metis length_map nth_eq_iff_index_eq nth_map)
    with i c show False by simp
  qed
  then have nh: "\<not> mapHas (selectedTurns st) (turn_id (ts ! c))"
    unfolding mapHas_iff Cons.prems(3) by (auto simp: entryOf_def)
  have h: "?st1 = (toggleTurn segm c st)\<lparr>lastClickedIndex := int c\<rparr>"
    by (simp add: handleTurnClick_def)
  have s1: "selectedTurns ?st1 = map (entryOf segm ts) (pre @ [c])"
    unfolding h using nh c Cons.prems(2,3) by (simp add: toggleTurn_selected)
  have a1: "allTurns ?st1 = ts" unfolding h using Cons.prems(2) by simp
  have "selectedTurns (clicks segm cs ?st1) = map (entryOf segm ts) ((pre @ [c]) @ cs)
         \<and> allTurns (clicks segm cs ?st1) = ts"
    using Cons.prems by (intro Cons.IH[OF Cons.prems(1) a1 s1]) auto
  then show ?case by (simp add: clicks_def)
qed

lemma clicks_selection:
  assumes "distinct (map turn_id ts)" "distinct cs" "\<forall>i\<in>set cs. i < length ts"
  shows "selectedTurns (clicks segm cs (selectionStart ts)) = map (entryOf segm ts) cs"
  using clicks_fresh[of ts "selectionStart ts" segm "[]" cs] assms
  by (simp add: selectionStart_def)

lemma clicks_order_independent:
  assumes "distinct (map turn_id ts)" "distinct cs1" "\<forall>i\<in>set cs1. i < length ts"
    and "mset cs1 = mset cs2"
  shows "formatOutputAs fmt d (selectedTurns (clicks segm cs1 (selectionStart ts)))
       = formatOutputAs fmt d (selectedTurns (clicks segm cs2 (selectionStart ts)))"
proof -
  have d2: "distinct cs2" using assms(2,4) by (metis mset_eq_imp_distinct_iff)
  have v2: "\<forall>i\<in>set cs2. i < length ts" using assms(3,4) by (metis mset_eq_setD)
  have s1: "selectedTurns (clicks segm cs1 (selectionStart ts)) = map (entryOf segm ts) cs1"
    using assms by (intro clicks_selection) auto
  have s2: "selectedTurns (clicks segm cs2 (selectionStart ts)) = map (entryOf segm ts) cs2"
    using assms(1) d2 v2 by (rule clicks_selection)
  have di: "distinct (map (\<lambda>e. sd_index (snd e)) (map (entryOf segm ts) cs1))"
    using assms(2) by (simp add: comp_def entryOf_def)
  have ms: "mset (map (entryOf segm ts) cs1) = mset (map (entryOf segm ts) cs2)"
    using assms(4) by simp
  show ?thesis unfolding s1 s2 using di ms by (rule formatOutputAs_order(1))
qed

lemma joinWith_separated: "joinWith sep ms = separated sep ms"
  by (induction sep ms rule: joinWith.induct) (simp_all add: separated_def)

lemma escapeUnit_plain: "plainUnit c \<Longrightarrow> escapeUnit c = [c]"
  by (auto simp: plainUnit_def escapeUnit_def isHighSurrogate_def isLowSurrogate_def)

lemma quoteChars_plain: "\<forall>c\<in>set t. plainUnit c \<Longrightarrow> quoteChars t = t"
proof (induction t rule: quoteChars.induct)
  case 1
  then show ?case by simp
next
  case (2 c)
  then show ?case by (simp add: escapeUnit_plain)
next
  case (3 c d cs)
  from "3.prems" have pc: "plainUnit c" and rest: "\<forall>x\<in>set (d # cs). plainUnit x" by simp_all
  from pc have nh: "\<not> isHighSurrogate c" by (auto simp: plainUnit_def isHighSurrogate_def)
  then have "quoteChars (d # cs) = d # cs" using "3.IH"(2) rest by simp
  with nh pc show ?case by (simp add: escapeUnit_plain)
qed

lemma jsonMessage_record: "jsonMessage m = jsonRecord m"
  by (simp add: jsonMessage_def jsonRecord_def quoteJSONString_def)

lemma sortedEntries_perm:
  "mset (sortedEntries sel) = mset sel"
  "sorted (map (\<lambda>e. sd_index (snd e)) (sortedEntries sel))"
  "sortedEntries sel = [] \<longleftrightarrow> sel = []"
proof -
  show "mset (sortedEntries sel) = mset sel" by (simp add: sortedEntries_def)
  show "sorted (map (\<lambda>e. sd_index (snd e)) (sortedEntries sel))" by (simp add: sortedEntries_def)
  have "length (sortedEntries sel) = length sel" by (simp add: sortedEntries_def)
  then show "sortedEntries sel = [] \<longleftrightarrow> sel = []" by (metis length_0_conv)
qed

lemma formatOutputAs_plain:
  "formatOutputAs ''plain'' d sel
     = separated (getDelimiterValue d) (map (\<lambda>e. plainMessage (snd e)) (sortedEntries sel))"
  by (simp add: formatOutputAs_def Let_def joinWith_separated plainMessage_def roleLabel_def)

lemma formatOutputAs_xml:
  "formatOutputAs ''xml'' d sel
     = separated [0x0A] (map (\<lambda>e. xmlMessage (snd e)) (sortedEntries sel))"
  by (simp add: formatOutputAs_def Let_def joinWith_separated xmlMessage_def roleTag_def)

lemma formatOutputAs_json:
  "formatOutputAs ''json'' d sel
     = (if sel = [] then js ''[]''
        else js ''['' @ [0x0A]
             @ separated (js '','' @ [0x0A]) (map (\<lambda>e. jsonRecord (snd e)) (sortedEntries sel))
             @ [0x0A] @ js '']'')"
proof -
  have m: "map jsonMessage (map snd (sortedEntries sel))
      = map (\<lambda>e. jsonRecord (snd e)) (sortedEntries sel)"
    by (simp add: jsonMessage_record)
  have "formatOutputAs ''json'' d sel = stringifyMessages (map snd (sortedEntries sel))"
    by (simp add: formatOutputAs_def Let_def)
  then show ?thesis
    unfolding stringifyMessages_def m joinWith_separated
    by (simp add: sortedEntries_perm(3))
qed

lemma getDelimiterValue_newline:
  "getDelimiterValue \<lparr>preset = ''newline'', custom = c\<rparr> = [0x0A, 0x0A]"
  by (simp add: getDelimiterValue_def DELIMITER_PRESETS_def)

text \<open>
  C6. For every selection, the entries that are serialized are the selected entries, each once,
  in ascending order of their turn index. In the plain format the output is the messages
  (role label, colon, line break, text) in that order with the delimiter between them, which is
  two line breaks for the default preset; in the JSON format it is the bracketed, comma-separated
  list of the records in that order, where a string of unescaped code units is quoted as it is;
  in the XML format it is the tagged messages in that order, one per line group. Two selections
  that hold the same entries, each turn index once, in different insertion orders give the same
  string in every format, and so do two orders of clicking the same distinct turns of one scan.
\<close>

theorem export_order_independent:
  "mset (sortedEntries sel) = mset sel
   \<and> sorted (map (\<lambda>e. sd_index (snd e)) (sortedEntries sel))
   \<and> formatOutputAs ''plain'' d sel
       = separated (getDelimiterValue d) (map (\<lambda>e. plainMessage (snd e)) (sortedEntries sel))
   \<and> getDelimiterValue \<lparr>preset = ''newline'', custom = c\<rparr> = [0x0A, 0x0A]
   \<and> formatOutputAs ''json'' d sel
       = (if sel = [] then js ''[]''
          else js ''['' @ [0x0A]
               @ separated (js '','' @ [0x0A]) (map (\<lambda>e. jsonRecord (snd e)) (sortedEntries sel))
               @ [0x0A] @ js '']'')
   \<and> ((\<forall>u\<in>set t. plainUnit u) \<longrightarrow> quoteChars t = t)
   \<and> formatOutputAs ''xml'' d sel
       = separated [0x0A] (map (\<lambda>e. xmlMessage (snd e)) (sortedEntries sel))
   \<and> (distinct (map (\<lambda>e. sd_index (snd e)) sel) \<and> mset sel = mset sel'
        \<longrightarrow> sortedEntries sel = sortedEntries sel'
            \<and> formatOutputAs fmt d sel = formatOutputAs fmt d sel')
   \<and> (distinct (map turn_id ts) \<and> distinct cs \<and> (\<forall>i\<in>set cs. i < length ts) \<and> mset cs = mset cs'
        \<longrightarrow> formatOutputAs fmt d (selectedTurns (clicks segm cs (selectionStart ts)))
            = formatOutputAs fmt d (selectedTurns (clicks segm cs' (selectionStart ts))))"
proof -
  have q: "(\<forall>u\<in>set t. plainUnit u) \<longrightarrow> quoteChars t = t"
    using quoteChars_plain by (rule impI)
  have o: "distinct (map (\<lambda>e. sd_index (snd e)) sel) \<and> mset sel = mset sel'
        \<longrightarrow> sortedEntries sel = sortedEntries sel'
            \<and> formatOutputAs fmt d sel = formatOutputAs fmt d sel'"
  proof
    assume h: "distinct (map (\<lambda>e. sd_index (snd e)) sel) \<and> mset sel = mset sel'"
    then have h1: "distinct (map (\<lambda>e. sd_index (snd e)) sel)" and h2: "mset sel = mset sel'"
      by (rule conjunct1, rule conjunct2)
    from formatOutputAs_order(2)[OF h1 h2] formatOutputAs_order(1)[OF h1 h2]
    show "sortedEntries sel = sortedEntries sel'
            \<and> formatOutputAs fmt d sel = formatOutputAs fmt d sel'"
      by (rule conjI)
  qed
  have k: "distinct (map turn_id ts) \<and> distinct cs \<and> (\<forall>i\<in>set cs. i < length ts) \<and> mset cs = mset cs'
        \<longrightarrow> formatOutputAs fmt d (selectedTurns (clicks segm cs (selectionStart ts)))
            = formatOutputAs fmt d (selectedTurns (clicks segm cs' (selectionStart ts)))"
  proof
    assume h: "distinct (map turn_id ts) \<and> distinct cs \<and> (\<forall>i\<in>set cs. i < length ts)
        \<and> mset cs = mset cs'"
    then have "distinct (map turn_id ts)" "distinct cs" "\<forall>i\<in>set cs. i < length ts"
        "mset cs = mset cs'"
      by simp_all
    then show "formatOutputAs fmt d (selectedTurns (clicks segm cs (selectionStart ts)))
            = formatOutputAs fmt d (selectedTurns (clicks segm cs' (selectionStart ts)))"
      by (rule clicks_order_independent)
  qed
  show ?thesis
    by (rule conjI[OF sortedEntries_perm(1) conjI[OF sortedEntries_perm(2)
          conjI[OF formatOutputAs_plain conjI[OF getDelimiterValue_newline
          conjI[OF formatOutputAs_json conjI[OF q conjI[OF formatOutputAs_xml conjI[OF o k]]]]]]]])
qed

subsection \<open>Evaluations on a concrete conversation\<close>

lemma demoTurns_facts:
  "distinct (map turn_id demoTurns)" "length demoTurns = 4"
  "turn_id (demoTurns ! 0) = 10" "turn_id (demoTurns ! 1) = 11"
  "turn_id (demoTurns ! 2) = 12" "turn_id (demoTurns ! 3) = 13"
  "turn_id (demoTurns ! Suc 0) = 11"
  by (simp_all add: demoTurns_def)

text \<open>
  C9, counterexample to the claim as stated: turn 0 is selected by a plain click; a shift-click
  on turn 1 then covers the range 0 to 1, and turn 0 is still selected afterwards, so its
  membership was not toggled.
\<close>

theorem handleTurnClick_range_not_toggled:
  "mapHas (selectedTurns (handleTurnClick None 0 False (selectionStart demoTurns))) 10
   \<and> mapHas (selectedTurns (handleTurnClick None 1 True
               (handleTurnClick None 0 False (selectionStart demoTurns)))) 10"
proof -
  let ?s0 = "selectionStart demoTurns"
  let ?s1 = "handleTurnClick None 0 False ?s0"
  have s0: "allTurns ?s0 = demoTurns" "\<not> mapHas (selectedTurns ?s0) 10"
    by (simp_all add: selectionStart_def mapHas_def)
  from handleTurnClick_membership[of None 0 False ?s0]
  have s1: "lastClickedIndex ?s1 = 0" "allTurns ?s1 = demoTurns"
    and m1: "mapHas (selectedTurns ?s1) 10"
    using s0 by (simp_all add: demoTurns_facts)
  from handleTurnClick_membership[of None 1 True ?s1]
  have "mapHas (selectedTurns (handleTurnClick None 1 True ?s1)) 10"
    using s1 m1 by simp
  with m1 show ?thesis by simp
qed

text \<open>C9, the amended statement at a plain click and at a shift-click.\<close>

theorem handleTurnClick_toggle_or_extend_witness:
  "mapHas (selectedTurns (handleTurnClick None 1 False (selectionStart demoTurns))) 11
   \<and> lastClickedIndex (handleTurnClick None 1 False (selectionStart demoTurns)) = 1
   \<and> mapHas (selectedTurns (handleTurnClick None 3 True
               (handleTurnClick None 1 False (selectionStart demoTurns)))) 12"
proof -
  let ?s0 = "selectionStart demoTurns"
  let ?s1 = "handleTurnClick None 1 False ?s0"
  let ?s2 = "handleTurnClick None 3 True ?s1"
  have a0: "allTurns ?s0 = demoTurns" and n0: "\<not> mapHas (selectedTurns ?s0) 11"
    by (simp_all add: selectionStart_def mapHas_def)
  have c0: "\<not> (False \<and> 0 \<le> lastClickedIndex ?s0)" by simp
  note t1 = handleTurnClick_toggle_or_extend[of None 1 False ?s0, unfolded if_not_P[OF c0]]
  from t1 have l1: "lastClickedIndex ?s1 = int 1" and a1: "allTurns ?s1 = allTurns ?s0"
    and k1: "\<forall>k. mapHas (selectedTurns ?s1) k
              \<longleftrightarrow> (if 1 < length (allTurns ?s0) \<and> k = turn_id (allTurns ?s0 ! 1)
                   then \<not> mapHas (selectedTurns ?s0) k
                   else mapHas (selectedTurns ?s0) k)"
    by (rule conjunct1, rule conjunct2[THEN conjunct1], rule conjunct2[THEN conjunct2])
  have i1: "1 < length (allTurns ?s0) \<and> 11 = turn_id (allTurns ?s0 ! 1)"
    by (simp add: a0 demoTurns_facts)
  from k1 have "mapHas (selectedTurns ?s1) 11
              \<longleftrightarrow> (if 1 < length (allTurns ?s0) \<and> 11 = turn_id (allTurns ?s0 ! 1)
                   then \<not> mapHas (selectedTurns ?s0) 11
                   else mapHas (selectedTurns ?s0) 11)"
    by (rule spec)
  then have m1: "mapHas (selectedTurns ?s1) 11" unfolding if_P[OF i1] using n0 by simp
  have c1: "True \<and> 0 \<le> lastClickedIndex ?s1" unfolding l1 by simp
  note t2 = handleTurnClick_toggle_or_extend[of None 3 True ?s1, unfolded if_P[OF c1]]
  from t2 have k2: "\<forall>k. mapHas (selectedTurns ?s2) k
              \<longleftrightarrow> mapHas (selectedTurns ?s1) k
                  \<or> (\<exists>j. min (nat (lastClickedIndex ?s1)) 3 \<le> j
                          \<and> j \<le> max (nat (lastClickedIndex ?s1)) 3
                          \<and> j < length (allTurns ?s1) \<and> turn_id (allTurns ?s1 ! j) = k)"
    by (rule conjunct2[THEN conjunct2])
  have "min (nat (lastClickedIndex ?s1)) 3 \<le> 2 \<and> 2 \<le> max (nat (lastClickedIndex ?s1)) 3
        \<and> 2 < length (allTurns ?s1) \<and> turn_id (allTurns ?s1 ! 2) = 12"
    unfolding l1 a1 a0 by (simp add: demoTurns_facts)
  then have e2: "\<exists>j. min (nat (lastClickedIndex ?s1)) 3 \<le> j
                          \<and> j \<le> max (nat (lastClickedIndex ?s1)) 3
                          \<and> j < length (allTurns ?s1) \<and> turn_id (allTurns ?s1 ! j) = 12"
    by (rule exI)
  from k2 have "mapHas (selectedTurns ?s2) 12
              \<longleftrightarrow> mapHas (selectedTurns ?s1) 12
                  \<or> (\<exists>j. min (nat (lastClickedIndex ?s1)) 3 \<le> j
                          \<and> j \<le> max (nat (lastClickedIndex ?s1)) 3
                          \<and> j < length (allTurns ?s1) \<and> turn_id (allTurns ?s1 ! j) = 12)"
    by (rule spec)
  with e2 have m2: "mapHas (selectedTurns ?s2) 12" by simp
  from m1 l1 m2 show ?thesis by simp
qed

lemma demo_roles:
  "determineMessageRole (turn_dom (demoTurns ! 0)) 0 = js ''user''"
  "determineMessageRole (turn_dom (demoTurns ! 2)) 2 = js ''user''"
  by (simp_all add: demoTurns_def determineMessageRole_def getAttribute_def jsOr_def truthy_def
        orEmpty_def roleAttribute_def js_def querySelectorAttr_def toLowerCase_def lowerUnit_def)

lemma demo_texts:
  "turn_text (demoTurns ! 0) = js ''Hi''" "turn_text (demoTurns ! 2) = js ''Bye''"
  by (simp_all add: demoTurns_def)

text \<open>
  C6 at the click orders 3, 1, 2 and 1, 2, 3 on a conversation of four turns, in the JSON
  format, and the XML output for the turns clicked in the order 2, 0.
\<close>

theorem export_order_independent_witness:
  "formatOutputAs ''json'' newlineDelimiter
     (selectedTurns (clicks None [3, 1, 2] (selectionStart demoTurns)))
   = formatOutputAs ''json'' newlineDelimiter
       (selectedTurns (clicks None [1, 2, 3] (selectionStart demoTurns)))
   \<and> formatOutputAs ''xml'' newlineDelimiter
       (selectedTurns (clicks None [2, 0] (selectionStart demoTurns)))
     = js ''<user>'' @ [0x0A] @ js ''Hi'' @ [0x0A] @ js ''</user>'' @ [0x0A]
       @ js ''<user>'' @ [0x0A] @ js ''Bye'' @ [0x0A] @ js ''</user>''"
proof -
  let ?sel = "selectedTurns (clicks None [2, 0] (selectionStart demoTurns))"
  note t = export_order_independent[of ?sel newlineDelimiter "[]" "[]" ?sel "''json''"
      demoTurns "[3, 1, 2]" "[1, 2, 3]" None]
  have h: "distinct (map turn_id demoTurns) \<and> distinct [3, 1, 2::nat]
      \<and> (\<forall>i\<in>set [3, 1, 2]. i < length demoTurns) \<and> mset [3, 1, 2::nat] = mset [1, 2, 3]"
    by (simp add: demoTurns_facts add_mset_commute)
  note k = t[THEN conjunct2, THEN conjunct2, THEN conjunct2, THEN conjunct2, THEN conjunct2,
      THEN conjunct2, THEN conjunct2, THEN conjunct2]
  from k h have A: "formatOutputAs ''json'' newlineDelimiter
     (selectedTurns (clicks None [3, 1, 2] (selectionStart demoTurns)))
   = formatOutputAs ''json'' newlineDelimiter
       (selectedTurns (clicks None [1, 2, 3] (selectionStart demoTurns)))"
    by (rule mp)
  note x = t[THEN conjunct2, THEN conjunct2, THEN conjunct2, THEN conjunct2, THEN conjunct2,
      THEN conjunct2, THEN conjunct1]
  have sel: "?sel = map (entryOf None demoTurns) [2, 0]"
    by (rule clicks_selection) (simp_all add: demoTurns_facts)
  have so: "sortedEntries (map (entryOf None demoTurns) [2, 0]) = map (entryOf None demoTurns) [0, 2]"
    by (simp add: sortedEntries_def entryOf_def)
  have m0: "xmlMessage (snd (entryOf None demoTurns 0))
      = js ''<user>'' @ [0x0A] @ js ''Hi'' @ [0x0A] @ js ''</user>''"
    and m2: "xmlMessage (snd (entryOf None demoTurns 2))
      = js ''<user>'' @ [0x0A] @ js ''Bye'' @ [0x0A] @ js ''</user>''"
    by (simp_all add: xmlMessage_def roleTag_def entryOf_def demo_roles demo_texts js_def)
  have B: "formatOutputAs ''xml'' newlineDelimiter ?sel
     = js ''<user>'' @ [0x0A] @ js ''Hi'' @ [0x0A] @ js ''</user>'' @ [0x0A]
       @ js ''<user>'' @ [0x0A] @ js ''Bye'' @ [0x0A] @ js ''</user>''"
    unfolding x unfolding sel so by (simp add: separated_def m0 m2)
  from A B show ?thesis by (rule conjI)
qed

text \<open>The serializations of small selections, evaluated.\<close>

lemma demo_xml_output:
  "formatOutputAs ''xml'' newlineDelimiter (selectedTurns (clicks None [2, 0] (selectionStart demoTurns)))
     = js ''<user>'' @ [0x0A] @ js ''Hi'' @ [0x0A] @ js ''</user>'' @ [0x0A]
       @ js ''<user>'' @ [0x0A] @ js ''Bye'' @ [0x0A] @ js ''</user>''"
proof -
  have sel: "selectedTurns (clicks None [2, 0] (selectionStart demoTurns))
      = map (entryOf None demoTurns) [2, 0]"
    by (rule clicks_selection) (simp_all add: demoTurns_facts)
  have so: "sortedEntries (map (entryOf None demoTurns) [2, 0]) = map (entryOf None demoTurns) [0, 2]"
    by (simp add: sortedEntries_def entryOf_def)
  show ?thesis
    unfolding sel formatOutputAs_def so Let_def
    by (simp add: entryOf_def demo_roles demo_texts) (simp add: js_def)
qed

lemma demo_json_output:
  "formatOutputAs ''json'' newlineDelimiter (selectedTurns (clicks None [0] (selectionStart demoTurns)))
     = js ''['' @ [0x0A] @ js ''  {'' @ [0x0A] @ js ''    \"role\": \"user\",'' @ [0x0A]
       @ js ''    \"content\": \"Hi\"'' @ [0x0A] @ js ''  }'' @ [0x0A] @ js '']''"
proof -
  have sel: "selectedTurns (clicks None [0] (selectionStart demoTurns))
      = map (entryOf None demoTurns) [0]"
    by (rule clicks_selection) (simp_all add: demoTurns_facts)
  have so: "sortedEntries (map (entryOf None demoTurns) [0]) = map (entryOf None demoTurns) [0]"
    by (simp add: sortedEntries_def)
  have q: "quoteJSONString (js ''user'') = js ''\"user\"''" "quoteJSONString (js ''Hi'') = js ''\"Hi\"''"
    by (simp_all add: quoteJSONString_def escapeUnit_def isHighSurrogate_def isLowSurrogate_def
          js_def)
  show ?thesis
    unfolding sel formatOutputAs_def so Let_def
    by (simp add: entryOf_def demo_roles demo_texts stringifyMessages_def jsonMessage_def q)
       (simp add: js_def)
qed

end
